theory Spec2Isabelle
  imports Main "HOL-Library.Word"
begin

section \<open>JavaScript strings and values\<close>

text \<open>
  A JavaScript string is a finite sequence of 16-bit code units (UTF-16, surrogate halves
  allowed anywhere). String literals of the source are written \<open>str ''...''\<close>.
\<close>

type_synonym code_unit = "16 word"
type_synonym jsstring = "code_unit list"

definition cu :: "char \<Rightarrow> code_unit" where
  "cu c = of_nat (of_char c)"

definition str :: "string \<Rightarrow> jsstring" where
  "str s = map cu s"

text \<open>
  The values a caller can pass where the TypeScript signature says \<open>string\<close>; the
  functions check \<open>typeof str !== 'string'\<close> at run time. JavaScript numbers are
  kept abstract: the library only ever stringifies them.
\<close>

typedecl jsnumber

datatype jsvalue =
    JString jsstring
  | JNumber jsnumber
  | JBoolean bool
  | JNull
  | JUndefined

datatype error = TypeError | URIError

definition is_lead :: "code_unit \<Rightarrow> bool" where
  "is_lead c = (0xD800 \<le> unat c \<and> unat c \<le> 0xDBFF)"

definition is_trail :: "code_unit \<Rightarrow> bool" where
  "is_trail c = (0xDC00 \<le> unat c \<and> unat c \<le> 0xDFFF)"

text \<open>\<open>String.prototype.isWellFormed\<close>: no unpaired surrogate.\<close>

fun well_formed :: "jsstring \<Rightarrow> bool" where
  "well_formed [] = True"
| "well_formed [c] = (\<not> is_lead c \<and> \<not> is_trail c)"
| "well_formed (c # d # s) =
     (if is_lead c then is_trail d \<and> well_formed s
      else \<not> is_trail c \<and> well_formed (d # s))"

section \<open>The platform primitives used by the library\<close>

subsection \<open>\<open>encodeURIComponent\<close> (ECMA-262, abstract operation Encode)\<close>

definition is_alnum :: "code_unit \<Rightarrow> bool" where
  "is_alnum c =
     ((0x41 \<le> unat c \<and> unat c \<le> 0x5A) \<or> (0x61 \<le> unat c \<and> unat c \<le> 0x7A)
      \<or> (0x30 \<le> unat c \<and> unat c \<le> 0x39))"

text \<open>The set the primitive never escapes: ASCII letters, digits and \<open>- _ . ! ~ * ' ( )\<close>.\<close>

definition uriUnescaped :: "code_unit \<Rightarrow> bool" where
  "uriUnescaped c =
     (is_alnum c \<or> c = 0x2D \<or> c = 0x5F \<or> c = 0x2E \<or> c = 0x21 \<or> c = 0x7E
      \<or> c = 0x2A \<or> c = 0x27 \<or> c = 0x28 \<or> c = 0x29)"

definition UTF16SurrogatePairToCodePoint :: "code_unit \<Rightarrow> code_unit \<Rightarrow> nat" where
  "UTF16SurrogatePairToCodePoint lead trail =
     (unat lead - 0xD800) * 0x400 + (unat trail - 0xDC00) + 0x10000"

text \<open>The UTF-8 octets of a code point.\<close>

definition utf8_octets :: "nat \<Rightarrow> nat list" where
  "utf8_octets cp =
     (if cp < 0x80 then [cp]
      else if cp < 0x800 then [0xC0 + cp div 64, 0x80 + cp mod 64]
      else if cp < 0x10000 then
        [0xE0 + cp div 4096, 0x80 + cp div 64 mod 64, 0x80 + cp mod 64]
      else
        [0xF0 + cp div 262144, 0x80 + cp div 4096 mod 64,
         0x80 + cp div 64 mod 64, 0x80 + cp mod 64])"

definition hexdigit :: "nat \<Rightarrow> code_unit" where
  "hexdigit d = (if d < 10 then of_nat (0x30 + d) else of_nat (0x41 + (d - 10)))"

text \<open>One octet as \<open>%XY\<close> with upper-case hexadecimal digits.\<close>

definition percent_octet :: "nat \<Rightarrow> jsstring" where
  "percent_octet b = [0x25, hexdigit (b div 16), hexdigit (b mod 16)]"

definition percent_octets :: "nat list \<Rightarrow> jsstring" where
  "percent_octets bs = concat (map percent_octet bs)"

definition prepend :: "jsstring \<Rightarrow> error + jsstring \<Rightarrow> error + jsstring" where
  "prepend p r = (case r of Inl e \<Rightarrow> Inl e | Inr s \<Rightarrow> Inr (p @ s))"

text \<open>
  The primitive walks the code units: an unescaped unit is copied; otherwise the code
  point at that position is taken (a surrogate pair counts as one code point), an unpaired
  surrogate raises \<open>URIError\<close>, and the UTF-8 octets of the code point are emitted as
  \<open>%XY\<close> triplets.
\<close>

fun encodeURIComponent :: "jsstring \<Rightarrow> error + jsstring" where
  "encodeURIComponent [] = Inr []"
| "encodeURIComponent [c] =
     (if uriUnescaped c then Inr [c]
      else if is_lead c \<or> is_trail c then Inl URIError
      else Inr (percent_octets (utf8_octets (unat c))))"
| "encodeURIComponent (c # d # s) =
     (if uriUnescaped c then prepend [c] (encodeURIComponent (d # s))
      else if is_trail c then Inl URIError
      else if is_lead c then
        (if is_trail d then
           prepend (percent_octets (utf8_octets (UTF16SurrogatePairToCodePoint c d)))
             (encodeURIComponent s)
         else Inl URIError)
      else prepend (percent_octets (utf8_octets (unat c))) (encodeURIComponent (d # s)))"

subsection \<open>\<open>decodeURIComponent\<close> (ECMA-262, abstract operation Decode)\<close>

definition hexval :: "code_unit \<Rightarrow> nat option" where
  "hexval c =
     (if 0x30 \<le> unat c \<and> unat c \<le> 0x39 then Some (unat c - 0x30)
      else if 0x41 \<le> unat c \<and> unat c \<le> 0x46 then Some (unat c - 0x41 + 10)
      else if 0x61 \<le> unat c \<and> unat c \<le> 0x66 then Some (unat c - 0x61 + 10)
      else None)"

definition ParseHexOctet :: "code_unit \<Rightarrow> code_unit \<Rightarrow> nat option" where
  "ParseHexOctet h1 h2 =
     (case hexval h1 of None \<Rightarrow> None
      | Some a \<Rightarrow> (case hexval h2 of None \<Rightarrow> None | Some b \<Rightarrow> Some (16 * a + b)))"

text \<open>The number of leading 1 bits of an octet (5 stands for "more than four").\<close>

definition leading_ones :: "nat \<Rightarrow> nat" where
  "leading_ones b =
     (if b < 0x80 then 0 else if b < 0xC0 then 1 else if b < 0xE0 then 2
      else if b < 0xF0 then 3 else if b < 0xF8 then 4 else 5)"

text \<open>
  Reads \<open>j\<close> further \<open>%XY\<close> escapes, which must follow immediately; \<open>None\<close> where
  the primitive throws.
\<close>

fun continuation_octets :: "nat \<Rightarrow> jsstring \<Rightarrow> (nat list \<times> jsstring) option" where
  "continuation_octets 0 s = Some ([], s)"
| "continuation_octets (Suc j) (p # h1 # h2 # s) =
     (if p = 0x25 then
        (case ParseHexOctet h1 h2 of
           None \<Rightarrow> None
         | Some b \<Rightarrow>
             (case continuation_octets j s of
                None \<Rightarrow> None
              | Some (bs, r) \<Rightarrow> Some (b # bs, r)))
      else None)"
| "continuation_octets (Suc j) s = None"

definition is_continuation :: "nat \<Rightarrow> bool" where
  "is_continuation b = (0x80 \<le> b \<and> b < 0xC0)"

text \<open>
  The code point of a multi-octet sequence, \<open>None\<close> unless the octets are a valid UTF-8
  encoding: continuation octets of the form \<open>10xxxxxx\<close>, shortest form, no surrogate,
  at most U+10FFFF.
\<close>

definition utf8_codepoint :: "nat list \<Rightarrow> nat option" where
  "utf8_codepoint octets =
     (case octets of
        [b1, b2] \<Rightarrow>
          (let v = (b1 - 0xC0) * 64 + (b2 - 0x80)
           in if is_continuation b2 \<and> 0x80 \<le> v then Some v else None)
      | [b1, b2, b3] \<Rightarrow>
          (let v = (b1 - 0xE0) * 4096 + (b2 - 0x80) * 64 + (b3 - 0x80)
           in if is_continuation b2 \<and> is_continuation b3 \<and> 0x800 \<le> v
                 \<and> \<not> (0xD800 \<le> v \<and> v \<le> 0xDFFF)
              then Some v else None)
      | [b1, b2, b3, b4] \<Rightarrow>
          (let v = (b1 - 0xF0) * 262144 + (b2 - 0x80) * 4096 + (b3 - 0x80) * 64 + (b4 - 0x80)
           in if is_continuation b2 \<and> is_continuation b3 \<and> is_continuation b4
                 \<and> 0x10000 \<le> v \<and> v \<le> 0x10FFFF
              then Some v else None)
      | _ \<Rightarrow> None)"

definition UTF16EncodeCodePoint :: "nat \<Rightarrow> jsstring" where
  "UTF16EncodeCodePoint cp =
     (if cp \<le> 0xFFFF then [of_nat cp]
      else [of_nat ((cp - 0x10000) div 0x400 + 0xD800),
            of_nat ((cp - 0x10000) mod 0x400 + 0xDC00)])"

lemma continuation_octets_length:
  "continuation_octets j s = Some (bs, r) \<Longrightarrow> length r \<le> length s"
proof (induction j s arbitrary: bs r rule: continuation_octets.induct)
  case (2 j p h1 h2 s)
  then show ?case
    by (fastforce split: if_splits option.splits)
qed simp_all

text \<open>
  A unit other than \<open>%\<close> is copied. A \<open>%\<close> must be followed by two hexadecimal
  digits; an octet below 0x80 is the character itself, any other octet starts a UTF-8
  sequence whose remaining octets must follow as escapes. Every failure is \<open>URIError\<close>.
\<close>

function decodeURIComponent :: "jsstring \<Rightarrow> error + jsstring" where
  "decodeURIComponent [] = Inr []"
| "decodeURIComponent (c # s) =
     (if c \<noteq> 0x25 then prepend [c] (decodeURIComponent s)
      else
        (case s of
           h1 # h2 # s' \<Rightarrow>
             (case ParseHexOctet h1 h2 of
                None \<Rightarrow> Inl URIError
              | Some b \<Rightarrow>
                  (if leading_ones b = 0 then prepend [of_nat b] (decodeURIComponent s')
                   else if leading_ones b = 1 \<or> 4 < leading_ones b then Inl URIError
                   else
                     (case continuation_octets (leading_ones b - 1) s' of
                        None \<Rightarrow> Inl URIError
                      | Some (octets, s'') \<Rightarrow>
                          (case utf8_codepoint (b # octets) of
                             None \<Rightarrow> Inl URIError
                           | Some v \<Rightarrow>
                               prepend (UTF16EncodeCodePoint v) (decodeURIComponent s'')))))
         | _ \<Rightarrow> Inl URIError))"
  by pat_completeness auto
termination
  by (relation "measure length") (auto dest: continuation_octets_length)

section \<open>String methods used by the library\<close>

text \<open>\<open>s.replace(/c/g, r)\<close> for a pattern that is one literal character.\<close>

definition replace_char :: "code_unit \<Rightarrow> jsstring \<Rightarrow> jsstring \<Rightarrow> jsstring" where
  "replace_char c r s = concat (map (\<lambda>x. if x = c then r else [x]) s)"

text \<open>\<open>s.replace(/%20/g, '+')\<close>: leftmost matches, scanning resumes after each match.\<close>

fun replace_pct20 :: "jsstring \<Rightarrow> jsstring" where
  "replace_pct20 (a # b # c # s) =
     (if a = 0x25 \<and> b = 0x32 \<and> c = 0x30 then 0x2B # replace_pct20 s
      else a # replace_pct20 (b # c # s))"
| "replace_pct20 s = s"

text \<open>\<open>s.split(c)\<close> for a one-character separator; the result is never empty.\<close>

fun split_on :: "code_unit \<Rightarrow> jsstring \<Rightarrow> jsstring list" where
  "split_on c [] = [[]]"
| "split_on c (x # xs) =
     (if x = c then [] # split_on c xs
      else (case split_on c xs of [] \<Rightarrow> [[x]] | p # ps \<Rightarrow> (x # p) # ps))"

text \<open>\<open>parts.join(sep)\<close>.\<close>

fun join :: "jsstring \<Rightarrow> jsstring list \<Rightarrow> jsstring" where
  "join sep [] = []"
| "join sep [x] = x"
| "join sep (x # y # ys) = x @ sep @ join sep (y # ys)"

text \<open>\<open>Array.from(str)\<close>: the string cut into code points, a surrogate pair staying together.\<close>

fun Array_from :: "jsstring \<Rightarrow> jsstring list" where
  "Array_from [] = []"
| "Array_from [c] = [[c]]"
| "Array_from (c # d # s) =
     (if is_lead c \<and> is_trail d then [c, d] # Array_from s
      else [c] # Array_from (d # s))"

text \<open>\<open>xs.map(f)\<close> where \<open>f\<close> may throw: the first exception ends the loop.\<close>

fun map_throwing :: "('a \<Rightarrow> error + 'b) \<Rightarrow> 'a list \<Rightarrow> error + 'b list" where
  "map_throwing f [] = Inr []"
| "map_throwing f (x # xs) =
     (case f x of
        Inl e \<Rightarrow> Inl e
      | Inr y \<Rightarrow> (case map_throwing f xs of Inl e \<Rightarrow> Inl e | Inr ys \<Rightarrow> Inr (y # ys)))"

section \<open>The library (src/index.ts)\<close>

record EncodeOptions =
  plusForSpace :: bool
  strict :: bool
  allowedChars :: "jsstring list"

record DecodeOptions =
  plusAsSpace :: bool

text \<open>The options a call without the second argument gets.\<close>

definition default_encode_options :: EncodeOptions where
  "default_encode_options = \<lparr>plusForSpace = False, strict = False, allowedChars = []\<rparr>"

definition default_decode_options :: DecodeOptions where
  "default_decode_options = \<lparr>plusAsSpace = False\<rparr>"

text \<open>
  The chain \<open>.replace(/!/g,'%21').replace(/'/g,'%27').replace(/\(/g,'%28')
  .replace(/\)/g,'%29').replace(/\*/g,'%2A')\<close>, which the source applies in both modes.
\<close>

definition replace_reserved :: "jsstring \<Rightarrow> jsstring" where
  "replace_reserved s =
     replace_char 0x2A (str ''%2A'')
       (replace_char 0x29 (str ''%29'')
         (replace_char 0x28 (str ''%28'')
           (replace_char 0x27 (str ''%27'')
             (replace_char 0x21 (str ''%21'') s))))"

text \<open>The character class \<open>[A-Za-z0-9\-_]\<close>.\<close>

definition strict_safe :: "code_unit \<Rightarrow> bool" where
  "strict_safe c = (is_alnum c \<or> c = 0x2D \<or> c = 0x5F)"

text \<open>The callback of the strict branch, applied to one element of \<open>Array.from(str)\<close>.\<close>

definition strict_char :: "jsstring list \<Rightarrow> jsstring \<Rightarrow> error + jsstring" where
  "strict_char allowed char =
     (if list_ex strict_safe char \<or> char \<in> set allowed then Inr char
      else
        (case encodeURIComponent char of
           Inl e \<Rightarrow> Inl e
         | Inr charEncoded \<Rightarrow> Inr (replace_reserved charEncoded)))"

definition encode :: "jsvalue \<Rightarrow> EncodeOptions \<Rightarrow> error + jsstring" where
  "encode v options =
     (case v of
        JString s \<Rightarrow>
          (case encodeURIComponent s of
             Inl e \<Rightarrow> Inl e
           | Inr encoded0 \<Rightarrow>
               (case (if strict options
                      then (case map_throwing (strict_char (allowedChars options)) (Array_from s) of
                              Inl e \<Rightarrow> Inl e
                            | Inr parts \<Rightarrow> Inr (concat parts))
                      else Inr (replace_reserved encoded0)) of
                  Inl e \<Rightarrow> Inl e
                | Inr encoded \<Rightarrow>
                    Inr (if plusForSpace options then replace_pct20 encoded else encoded)))
      | _ \<Rightarrow> Inl TypeError)"

text \<open>
  The \<open>catch\<close> branch returns the parameter \<open>str\<close>, not the local \<open>decoded\<close>;
  the \<open>console.warn\<close> there does not affect the result and is not modelled.
\<close>

definition decode :: "jsvalue \<Rightarrow> DecodeOptions \<Rightarrow> error + jsstring" where
  "decode v options =
     (case v of
        JString s \<Rightarrow>
          (let decoded = (if plusAsSpace options then replace_char 0x2B (str '' '') s else s)
           in case decodeURIComponent decoded of
                Inl e \<Rightarrow> Inr s
              | Inr decoded' \<Rightarrow> Inr decoded')
      | _ \<Rightarrow> Inl TypeError)"

text \<open>
  The fields of the platform's \<open>URL\<close> object that \<open>encodeUrl\<close> reads:
  \<open>searchParams\<close> holds the decoded name/value pairs in order, \<open>hash\<close> is empty or
  starts with \<open>#\<close>.
\<close>

record URL =
  protocol :: jsstring
  host :: jsstring
  pathname :: jsstring
  searchParams :: "(jsstring \<times> jsstring) list"
  hash :: jsstring

text \<open>The callback of \<open>searchParams.forEach\<close>: the template \<open>`${encode(key)}=${encode(value)}`\<close>.\<close>

definition encode_param :: "jsstring \<times> jsstring \<Rightarrow> error + jsstring" where
  "encode_param kv =
     (case encode (JString (fst kv)) default_encode_options of
        Inl e \<Rightarrow> Inl e
      | Inr k \<Rightarrow>
          (case encode (JString (snd kv)) default_encode_options of
             Inl e \<Rightarrow> Inl e
           | Inr v \<Rightarrow> Inr (k @ str ''='' @ v)))"

text \<open>
  The inner \<open>try\<close>/\<open>catch\<close> around the fragment: decode, then encode; any exception
  of either step leads to encoding the raw fragment.
\<close>

definition encode_hash :: "jsstring \<Rightarrow> error + jsstring" where
  "encode_hash h =
     (if h = [] then Inr []
      else
        (case (case decodeURIComponent (tl h) of
                 Inl e \<Rightarrow> Inl e
               | Inr decodedHash \<Rightarrow> encode (JString decodedHash) default_encode_options) of
           Inr e \<Rightarrow> Inr (str ''#'' @ e)
         | Inl _ \<Rightarrow>
             (case encode (JString (tl h)) default_encode_options of
                Inl e \<Rightarrow> Inl e
              | Inr e \<Rightarrow> Inr (str ''#'' @ e))))"

text \<open>The body of the outer \<open>try\<close>; \<open>new URL(url)\<close> throws \<open>TypeError\<close> where the parser gives \<open>None\<close>.\<close>

definition encodeUrl_try :: "(jsstring \<Rightarrow> URL option) \<Rightarrow> jsstring \<Rightarrow> error + jsstring" where
  "encodeUrl_try new_URL url =
     (case new_URL url of
        None \<Rightarrow> Inl TypeError
      | Some urlObj \<Rightarrow>
          (case map_throwing encode_param (searchParams urlObj) of
             Inl e \<Rightarrow> Inl e
           | Inr newParams \<Rightarrow>
               (let base = protocol urlObj @ str ''//'' @ host urlObj @ pathname urlObj;
                    query = (if 0 < length newParams then str ''?'' @ join (str ''&'') newParams
                             else [])
                in case encode_hash (hash urlObj) of
                     Inl e \<Rightarrow> Inl e
                   | Inr h \<Rightarrow> Inr (base @ query @ h))))"

text \<open>
  \<open>encodeUrl\<close> takes the platform's URL parser as its first argument. Whatever is thrown
  inside the \<open>try\<close> is caught, and the whole string is encoded instead.
\<close>

definition encodeUrl :: "(jsstring \<Rightarrow> URL option) \<Rightarrow> jsvalue \<Rightarrow> error + jsstring" where
  "encodeUrl new_URL v =
     (case v of
        JString url \<Rightarrow>
          (case encodeUrl_try new_URL url of
             Inr r \<Rightarrow> Inr r
           | Inl _ \<Rightarrow> encode (JString url) default_encode_options)
      | _ \<Rightarrow> Inl TypeError)"

text \<open>
  \<open>String(value)\<close>; the textual form of a number is the platform's \<open>Number::toString\<close>,
  a parameter here.
\<close>

definition ToString :: "(jsnumber \<Rightarrow> jsstring) \<Rightarrow> jsvalue \<Rightarrow> jsstring" where
  "ToString num_str v =
     (case v of
        JString s \<Rightarrow> s
      | JNumber n \<Rightarrow> num_str n
      | JBoolean b \<Rightarrow> (if b then str ''true'' else str ''false'')
      | JNull \<Rightarrow> str ''null''
      | JUndefined \<Rightarrow> str ''undefined'')"

definition encode_entry ::
  "(jsnumber \<Rightarrow> jsstring) \<Rightarrow> EncodeOptions \<Rightarrow> jsstring \<times> jsvalue \<Rightarrow> error + jsstring" where
  "encode_entry num_str options kv =
     (case encode (JString (fst kv)) options of
        Inl e \<Rightarrow> Inl e
      | Inr encodedKey \<Rightarrow>
          (case encode (JString (ToString num_str (snd kv))) options of
             Inl e \<Rightarrow> Inl e
           | Inr encodedValue \<Rightarrow> Inr (encodedKey @ str ''='' @ encodedValue)))"

text \<open>
  \<open>encodeQuery\<close> on \<open>Object.entries(params)\<close>, the own properties of \<open>params\<close> as
  a list of key/value pairs with distinct keys.
\<close>

definition encodeQuery ::
  "(jsnumber \<Rightarrow> jsstring) \<Rightarrow> (jsstring \<times> jsvalue) list \<Rightarrow> EncodeOptions \<Rightarrow> error + jsstring" where
  "encodeQuery num_str params options =
     (case map_throwing (encode_entry num_str options) params of
        Inl e \<Rightarrow> Inl e
      | Inr parts \<Rightarrow> Inr (join (str ''&'') parts))"

text \<open>
  \<open>result[key] = value\<close> on an object created by \<open>{}\<close>, whose own properties are the
  domain of the map. The key \<open>__proto__\<close> is the accessor inherited from
  \<open>Object.prototype\<close>: its setter ignores a string and creates no own property. Every
  other inherited property is a writable data property, so assignment creates or
  overwrites an own property.
\<close>

type_synonym jsobject = "jsstring \<rightharpoonup> jsstring"

definition obj_assign :: "jsobject \<Rightarrow> jsstring \<Rightarrow> jsstring \<Rightarrow> jsobject" where
  "obj_assign obj key val = (if key = str ''__proto__'' then obj else obj(key \<mapsto> val))"

text \<open>
  One iteration of the loop: \<open>const [key, value = ''] = pair.split('=')\<close> takes the first
  two elements of the split, the default standing in for a missing second one.
\<close>

definition decode_pair :: "DecodeOptions \<Rightarrow> jsobject \<Rightarrow> jsstring \<Rightarrow> error + jsobject" where
  "decode_pair options result pair =
     (case split_on 0x3D pair of
        [] \<Rightarrow> Inl TypeError
      | key # rest \<Rightarrow>
          (let val = (case rest of [] \<Rightarrow> [] | v # _ \<Rightarrow> v)
           in case decode (JString key) options of
                Inl e \<Rightarrow> Inl e
              | Inr decodedKey \<Rightarrow>
                  (case decode (JString val) options of
                     Inl e \<Rightarrow> Inl e
                   | Inr decodedValue \<Rightarrow> Inr (obj_assign result decodedKey decodedValue))))"

fun decode_pairs :: "DecodeOptions \<Rightarrow> jsobject \<Rightarrow> jsstring list \<Rightarrow> error + jsobject" where
  "decode_pairs options result [] = Inr result"
| "decode_pairs options result (pair # pairs) =
     (case decode_pair options result pair of
        Inl e \<Rightarrow> Inl e
      | Inr result' \<Rightarrow> decode_pairs options result' pairs)"

definition decodeQuery :: "jsstring \<Rightarrow> DecodeOptions \<Rightarrow> error + jsobject" where
  "decodeQuery queryString options =
     (let cleanQuery = (case queryString of
                          [] \<Rightarrow> queryString
                        | c # rest \<Rightarrow> if c = 0x3F then rest else queryString)
      in if cleanQuery = [] then Inr Map.empty
         else decode_pairs options Map.empty (split_on 0x26 cleanQuery))"

section \<open>Notions used in the statements\<close>

text \<open>
  The alphabet of encoded text under the default policy: the unreserved characters
  \<open>A-Z a-z 0-9 - _ . ~\<close> and the percent sign.
\<close>

definition url_safe :: "code_unit \<Rightarrow> bool" where
  "url_safe c = (is_alnum c \<or> c = 0x2D \<or> c = 0x5F \<or> c = 0x2E \<or> c = 0x7E \<or> c = 0x25)"

text \<open>
  A string has a malformed percent escape when some \<open>%\<close> is not followed by two
  hexadecimal digits (the string ends too early, or a following character is no digit).
\<close>

fun has_malformed_escape :: "jsstring \<Rightarrow> bool" where
  "has_malformed_escape [] = False"
| "has_malformed_escape (c # s) =
     ((c = 0x25 \<and>
        (case s of
           h1 # h2 # _ \<Rightarrow> hexval h1 = None \<or> hexval h2 = None
         | _ \<Rightarrow> True))
      \<or> has_malformed_escape s)"

text \<open>\<open>typeof v === 'string'\<close>.\<close>

definition is_string :: "jsvalue \<Rightarrow> bool" where
  "is_string v = (case v of JString _ \<Rightarrow> True | _ \<Rightarrow> False)"

text \<open>
  The decomposition of a query string that \<open>decodeQuery\<close> is compared with: the pairs
  are the \<open>&\<close>-separated pieces of the text after one leading \<open>?\<close>, none for
  empty text; the key of a pair is the text before its first \<open>=\<close>, its value the text
  between the first and the second \<open>=\<close> (up to the end when there is no second one,
  empty when there is no first one); a decoded key and value are assigned to the result.
\<close>

definition pair_key :: "jsstring \<Rightarrow> jsstring" where
  "pair_key pair = takeWhile (\<lambda>x. x \<noteq> 0x3D) pair"

definition pair_value :: "jsstring \<Rightarrow> jsstring" where
  "pair_value pair =
     takeWhile (\<lambda>x. x \<noteq> 0x3D) (drop 1 (dropWhile (\<lambda>x. x \<noteq> 0x3D) pair))"

definition decoded :: "DecodeOptions \<Rightarrow> jsstring \<Rightarrow> jsstring" where
  "decoded options s = (case decode (JString s) options of Inr r \<Rightarrow> r | Inl _ \<Rightarrow> s)"

definition assign_pair :: "DecodeOptions \<Rightarrow> jsstring \<Rightarrow> jsobject \<Rightarrow> jsobject" where
  "assign_pair options pair obj =
     obj_assign obj (decoded options (pair_key pair)) (decoded options (pair_value pair))"

definition query_pairs :: "jsstring \<Rightarrow> jsstring list" where
  "query_pairs q =
     (let rest = (if q \<noteq> [] \<and> hd q = 0x3F then tl q else q)
      in if rest = [] then [] else split_on 0x26 rest)"

text \<open>
  The map a query round trip yields: the same keys, each value in its string form; and
  the entries whose key and stringified value have no unpaired surrogate.
\<close>

definition stringified ::
  "(jsnumber \<Rightarrow> jsstring) \<Rightarrow> (jsstring \<times> jsvalue) list \<Rightarrow> (jsstring \<times> jsstring) list" where
  "stringified num_str m = map (\<lambda>kv. (fst kv, ToString num_str (snd kv))) m"

definition usv_entry :: "(jsnumber \<Rightarrow> jsstring) \<Rightarrow> jsstring \<times> jsvalue \<Rightarrow> bool" where
  "usv_entry num_str kv = (well_formed (fst kv) \<and> well_formed (ToString num_str (snd kv)))"

text \<open>What an encoded entry looks like, seen from the decoder.\<close>

definition entry_part :: "jsstring \<times> jsstring \<Rightarrow> jsstring \<Rightarrow> bool" where
  "entry_part kv part =
     (\<exists>ek ev. part = ek @ 0x3D # ev \<and> list_all url_safe ek \<and> list_all url_safe ev
        \<and> decoded default_decode_options ek = fst kv
        \<and> decoded default_decode_options ev = snd kv)"

text \<open>
  The platform's parser hands out USV strings: the components that \<open>encodeUrl\<close>
  re-encodes have no unpaired surrogate.
\<close>

definition usv_components :: "URL \<Rightarrow> bool" where
  "usv_components r =
     (list_all (\<lambda>kv. well_formed (fst kv) \<and> well_formed (snd kv)) (searchParams r)
      \<and> well_formed (tl (hash r)))"

text \<open>
  What \<open>new URL(url)\<close> yields, by the WHATWG URL Standard, on the URLs used in the
  examples below: an empty path of an \<open>https\<close> URL becomes \<open>/\<close>, credentials
  are not part of \<open>host\<close>, and a space in the fragment is percent-encoded. This is an
  excerpt of the parser, read only at these inputs.
\<close>

definition URL_examples :: "jsstring \<Rightarrow> URL option" where
  "URL_examples url =
     (if url = str ''https://example.com:8080/path/to/resource'' then
        Some \<lparr>protocol = str ''https:'', host = str ''example.com:8080'',
              pathname = str ''/path/to/resource'', searchParams = [], hash = []\<rparr>
      else if url = str ''https://example.com'' then
        Some \<lparr>protocol = str ''https:'', host = str ''example.com'',
              pathname = str ''/'', searchParams = [], hash = []\<rparr>
      else if url = str ''https://example.com/page#section name'' then
        Some \<lparr>protocol = str ''https:'', host = str ''example.com'',
              pathname = str ''/page'', searchParams = [], hash = str ''#section%20name''\<rparr>
      else if url = str ''https://example.com?query='' @ [0x4F60, 0x597D] then
        Some \<lparr>protocol = str ''https:'', host = str ''example.com'',
              pathname = str ''/'', searchParams = [(str ''query'', [0x4F60, 0x597D])],
              hash = []\<rparr>
      else if url = str ''https://u:p@h.io/'' then
        Some \<lparr>protocol = str ''https:'', host = str ''h.io'',
              pathname = str ''/'', searchParams = [], hash = []\<rparr>
      else None)"

lemmas codec_eval =
  str_def cu_def is_lead_def is_trail_def is_alnum_def uriUnescaped_def
  UTF16SurrogatePairToCodePoint_def utf8_octets_def hexdigit_def percent_octet_def
  percent_octets_def prepend_def hexval_def ParseHexOctet_def leading_ones_def
  is_continuation_def utf8_codepoint_def UTF16EncodeCodePoint_def replace_char_def
  replace_reserved_def strict_safe_def strict_char_def encode_def decode_def
  default_encode_options_def default_decode_options_def

section \<open>Percent escapes and UTF-8\<close>

lemma unat_hexdigit: "d < 16 \<Longrightarrow> unat (hexdigit d) = (if d < 10 then 48 + d else 55 + d)"
  by (simp add: hexdigit_def unat_word_ariths unat_of_nat)

lemma hexval_hexdigit: "d < 16 \<Longrightarrow> hexval (hexdigit d) = Some d"
  by (simp add: hexval_def unat_hexdigit)

lemma ParseHexOctet_hexdigit:
  "b < 256 \<Longrightarrow> ParseHexOctet (hexdigit (b div 16)) (hexdigit (b mod 16)) = Some b"
  by (simp add: ParseHexOctet_def hexval_hexdigit less_mult_imp_div_less)

lemma is_alnum_hexdigit: "d < 16 \<Longrightarrow> is_alnum (hexdigit d)"
  by (simp add: is_alnum_def unat_hexdigit)

lemma url_safe_percent_octet: "b < 256 \<Longrightarrow> list_all url_safe (percent_octet b)"
  by (simp add: percent_octet_def url_safe_def is_alnum_hexdigit less_mult_imp_div_less)

lemma url_safe_percent_octets:
  "list_all (\<lambda>b. b < 256) bs \<Longrightarrow> list_all url_safe (percent_octets bs)"
  by (induction bs) (simp_all add: percent_octets_def url_safe_percent_octet)

lemma replace_char_append:
  "replace_char c r (a @ b) = replace_char c r a @ replace_char c r b"
  by (simp add: replace_char_def)

lemma replace_char_absent: "c \<notin> set s \<Longrightarrow> replace_char c r s = s"
  by (induction s) (auto simp: replace_char_def)

lemma replace_reserved_append:
  "replace_reserved (a @ b) = replace_reserved a @ replace_reserved b"
  by (simp add: replace_reserved_def replace_char_append)

lemma url_safe_not_reserved:
  "url_safe c \<Longrightarrow> c \<noteq> 0x21 \<and> c \<noteq> 0x27 \<and> c \<noteq> 0x28 \<and> c \<noteq> 0x29 \<and> c \<noteq> 0x2A"
  by (auto simp: url_safe_def is_alnum_def)

lemma replace_reserved_url_safe: "list_all url_safe s \<Longrightarrow> replace_reserved s = s"
proof -
  assume "list_all url_safe s"
  then have "0x21 \<notin> set s" "0x27 \<notin> set s" "0x28 \<notin> set s" "0x29 \<notin> set s" "0x2A \<notin> set s"
    using url_safe_not_reserved by (auto simp: list_all_iff)
  then show ?thesis
    by (simp add: replace_reserved_def replace_char_absent)
qed

lemma replace_reserved_Nil: "replace_reserved [] = []"
  by (simp add: replace_reserved_def replace_char_def)

lemma replace_reserved_single:
  "replace_reserved [c] =
     (if c = 0x21 then str ''%21'' else if c = 0x27 then str ''%27''
      else if c = 0x28 then str ''%28'' else if c = 0x29 then str ''%29''
      else if c = 0x2A then str ''%2A'' else [c])"
  by (simp add: replace_reserved_def replace_char_def str_def cu_def)

lemma dec_ascii_escape:
  "b < 0x80 \<Longrightarrow>
   decodeURIComponent (percent_octet b @ s) = prepend [of_nat b] (decodeURIComponent s)"
  by (simp add: percent_octet_def ParseHexOctet_hexdigit leading_ones_def)

lemma continuation_octets_percent:
  "list_all (\<lambda>b. b < 256) bs \<Longrightarrow>
   continuation_octets (length bs) (percent_octets bs @ s) = Some (bs, s)"
  by (induction bs)
     (simp_all add: percent_octets_def percent_octet_def ParseHexOctet_hexdigit)

lemma dec_multi_escape:
  assumes "b < 256" and "list_all (\<lambda>b. b < 256) bs"
    and "leading_ones b = Suc (length bs)" and "bs \<noteq> []" and "length bs < 4"
    and "utf8_codepoint (b # bs) = Some v"
  shows "decodeURIComponent (percent_octets (b # bs) @ s) =
           prepend (UTF16EncodeCodePoint v) (decodeURIComponent s)"
proof -
  have "percent_octets (b # bs) @ s =
          0x25 # hexdigit (b div 16) # hexdigit (b mod 16) # (percent_octets bs @ s)"
    by (simp add: percent_octets_def percent_octet_def)
  moreover have "continuation_octets (leading_ones b - 1) (percent_octets bs @ s) = Some (bs, s)"
    using assms continuation_octets_percent [of bs s] by simp
  ultimately show ?thesis
    using assms by (simp add: ParseHexOctet_hexdigit)
qed

lemma UTF16Encode_unit: "UTF16EncodeCodePoint (unat (c :: code_unit)) = [c]"
proof -
  have "unat c < 2 ^ 16" using unsigned_less [of c] by simp
  then show ?thesis by (simp add: UTF16EncodeCodePoint_def)
qed

lemma UTF16Encode_pair:
  assumes "is_lead c" "is_trail d"
  shows "UTF16EncodeCodePoint (UTF16SurrogatePairToCodePoint c d) = [c, d]"
proof -
  define a where "a = unat c - 0xD800"
  define b where "b = unat d - 0xDC00"
  have a: "unat c = a + 0xD800" and b: "unat d = b + 0xDC00" and "b < 0x400"
    using assms by (auto simp: a_def b_def is_lead_def is_trail_def)
  have "(a * 0x400 + b) div 0x400 = a" "(a * 0x400 + b) mod 0x400 = b"
    using \<open>b < 0x400\<close> by simp_all
  then have "UTF16EncodeCodePoint (a * 0x400 + b + 0x10000) = [of_nat (unat c), of_nat (unat d)]"
    by (simp add: UTF16EncodeCodePoint_def a b)
  then show ?thesis
    by (simp add: UTF16SurrogatePairToCodePoint_def a_def b_def)
qed

lemma pair_range:
  assumes "is_lead c" "is_trail d"
  shows "0x10000 \<le> UTF16SurrogatePairToCodePoint c d \<and> UTF16SurrogatePairToCodePoint c d < 0x110000"
  using assms by (auto simp: UTF16SurrogatePairToCodePoint_def is_lead_def is_trail_def)

lemma split3: "(cp::nat) = cp div 4096 * 4096 + (cp div 64 mod 64) * 64 + cp mod 64"
proof -
  have "cp mod 4096 = 64 * (cp div 64 mod 64) + cp mod 64"
    using mod_mult2_eq [of cp 64 64] by simp
  moreover have "cp = cp div 4096 * 4096 + cp mod 4096"
    by simp
  ultimately show ?thesis by simp
qed

lemma split4: "(cp::nat) = cp div 262144 * 262144 + (cp div 4096 mod 64) * 4096 + (cp div 64 mod 64) * 64 + cp mod 64"
proof -
  have "cp mod 262144 = 4096 * (cp div 4096 mod 64) + cp mod 4096"
    using mod_mult2_eq [of cp 4096 64] by simp
  moreover have "cp mod 4096 = 64 * (cp div 64 mod 64) + cp mod 64"
    using mod_mult2_eq [of cp 64 64] by simp
  moreover have "cp = cp div 262144 * 262144 + cp mod 262144"
    by simp
  ultimately show ?thesis by simp
qed

lemma utf8_codepoint_2: "0x80 \<le> cp \<Longrightarrow> cp < 0x800 \<Longrightarrow>
  utf8_codepoint [0xC0 + cp div 64, 0x80 + cp mod 64] = Some cp"
  by (simp add: utf8_codepoint_def is_continuation_def)

lemma utf8_codepoint_3:
  assumes "0x800 \<le> cp" "cp < 0x10000" "\<not> (0xD800 \<le> cp \<and> cp \<le> 0xDFFF)"
  shows "utf8_codepoint [0xE0 + cp div 4096, 0x80 + cp div 64 mod 64, 0x80 + cp mod 64] = Some cp"
proof -
  have "(0xE0 + cp div 4096 - 0xE0) * 4096 + (0x80 + cp div 64 mod 64 - 0x80) * 64
          + (0x80 + cp mod 64 - 0x80) = cp"
    using split3 [of cp] by simp
  with assms show ?thesis
    by (simp add: utf8_codepoint_def is_continuation_def Let_def del: add_diff_cancel_left')
qed

lemma utf8_codepoint_4:
  assumes "0x10000 \<le> cp" "cp < 0x110000"
  shows "utf8_codepoint [0xF0 + cp div 262144, 0x80 + cp div 4096 mod 64,
           0x80 + cp div 64 mod 64, 0x80 + cp mod 64] = Some cp"
proof -
  have "(0xF0 + cp div 262144 - 0xF0) * 262144 + (0x80 + cp div 4096 mod 64 - 0x80) * 4096
          + (0x80 + cp div 64 mod 64 - 0x80) * 64 + (0x80 + cp mod 64 - 0x80) = cp"
    using split4 [of cp] by simp
  with assms show ?thesis
    by (simp add: utf8_codepoint_def is_continuation_def Let_def del: add_diff_cancel_left')
qed

lemma mod64_less [simp]: "(x::nat) mod 64 < 128"
proof -
  have "x mod 64 < 64" by simp
  then show ?thesis by linarith
qed

lemma utf8_octets_bytes: "cp < 0x110000 \<Longrightarrow> list_all (\<lambda>b. b < 256) (utf8_octets cp)"
  by (simp add: utf8_octets_def less_mult_imp_div_less mod64_less)

lemma dec_codepoint:
  assumes "cp < 0x110000" and "\<not> (0xD800 \<le> cp \<and> cp \<le> 0xDFFF)"
  shows "decodeURIComponent (percent_octets (utf8_octets cp) @ s) =
           prepend (UTF16EncodeCodePoint cp) (decodeURIComponent s)"
proof -
  consider "cp < 0x80" | "0x80 \<le> cp" "cp < 0x800" | "0x800 \<le> cp" "cp < 0x10000"
    | "0x10000 \<le> cp"
    by linarith
  then show ?thesis
  proof cases
    case 1
    then show ?thesis
      using dec_ascii_escape [of cp s]
      by (simp add: utf8_octets_def percent_octets_def UTF16EncodeCodePoint_def)
  next
    case 2
    then have "cp div 64 < 32" by (simp add: less_mult_imp_div_less)
    then have "leading_ones (0xC0 + cp div 64) = 2"
      by (simp add: leading_ones_def)
    then show ?thesis
      using 2 utf8_codepoint_2 [of cp]
        dec_multi_escape [of "0xC0 + cp div 64" "[0x80 + cp mod 64]" cp s]
      by (simp add: utf8_octets_def)
  next
    case 3
    then have "cp div 4096 < 16" by (simp add: less_mult_imp_div_less)
    then have "leading_ones (0xE0 + cp div 4096) = 3"
      by (simp add: leading_ones_def)
    then show ?thesis
      using 3 assms utf8_codepoint_3 [of cp]
        dec_multi_escape [of "0xE0 + cp div 4096" "[0x80 + cp div 64 mod 64, 0x80 + cp mod 64]" cp s]
      by (simp add: utf8_octets_def)
  next
    case 4
    then have "cp div 262144 < 5" using assms by (simp add: less_mult_imp_div_less)
    then have "leading_ones (0xF0 + cp div 262144) = 4"
      by (simp add: leading_ones_def)
    then show ?thesis
      using 4 assms utf8_codepoint_4 [of cp]
        dec_multi_escape [of "0xF0 + cp div 262144"
          "[0x80 + cp div 4096 mod 64, 0x80 + cp div 64 mod 64, 0x80 + cp mod 64]" cp s]
      by (simp add: utf8_octets_def)
  qed
qed

section \<open>Round trip of the default policy\<close>

lemma uriUnescaped_not_percent: "uriUnescaped c \<Longrightarrow> c \<noteq> 0x25"
  by (auto simp: uriUnescaped_def is_alnum_def)

lemma dec_unescaped:
  assumes "uriUnescaped c"
  shows "decodeURIComponent (replace_reserved [c] @ s) = prepend [c] (decodeURIComponent s)"
proof (cases "c = 0x21 \<or> c = 0x27 \<or> c = 0x28 \<or> c = 0x29 \<or> c = 0x2A")
  case True
  then show ?thesis
    by (auto simp: replace_reserved_single str_def cu_def ParseHexOctet_def hexval_def
        leading_ones_def)
next
  case False
  then show ?thesis
    using uriUnescaped_not_percent [OF assms] by (simp add: replace_reserved_single)
qed

lemma dec_escaped:
  assumes "cp < 0x110000" and "\<not> (0xD800 \<le> cp \<and> cp \<le> 0xDFFF)"
  shows "decodeURIComponent (replace_reserved (percent_octets (utf8_octets cp)) @ s) =
           prepend (UTF16EncodeCodePoint cp) (decodeURIComponent s)"
  using assms
  by (simp add: replace_reserved_url_safe url_safe_percent_octets utf8_octets_bytes dec_codepoint)

lemma unit_scalar:
  "\<not> is_lead c \<Longrightarrow> \<not> is_trail c \<Longrightarrow>
   unat c < 0x110000 \<and> \<not> (0xD800 \<le> unat c \<and> unat c \<le> 0xDFFF)"
proof -
  assume a: "\<not> is_lead c" "\<not> is_trail c"
  have "unat c < 2 ^ 16" using unsigned_less [of c] by simp
  with a show ?thesis by (auto simp: is_lead_def is_trail_def)
qed

lemma pair_scalar:
  "is_lead c \<Longrightarrow> is_trail d \<Longrightarrow>
   UTF16SurrogatePairToCodePoint c d < 0x110000
   \<and> \<not> (0xD800 \<le> UTF16SurrogatePairToCodePoint c d \<and> UTF16SurrogatePairToCodePoint c d \<le> 0xDFFF)"
  using pair_range [of c d] by auto

lemma uriUnescaped_not_surrogate: "uriUnescaped c \<Longrightarrow> \<not> is_lead c \<and> \<not> is_trail c"
  by (auto simp: uriUnescaped_def is_alnum_def is_lead_def is_trail_def)

lemma prepend_Inr [simp]: "prepend p (Inr s) = Inr (p @ s)"
  by (simp add: prepend_def)

lemma prepend_Inl [simp]: "prepend p (Inl e) = Inl e"
  by (simp add: prepend_def)

lemma encodeURIComponent_roundtrip:
  "well_formed t \<Longrightarrow>
   \<exists>e. encodeURIComponent t = Inr e \<and> decodeURIComponent (replace_reserved e) = Inr t"
proof (induction t rule: encodeURIComponent.induct)
  case 1
  then show ?case by (simp add: replace_reserved_Nil)
next
  case (2 c)
  show ?case
  proof (cases "uriUnescaped c")
    case True
    then show ?thesis using dec_unescaped [of c "[]"] by simp
  next
    case False
    with 2 show ?thesis
      using dec_escaped [of "unat c" "[]"] unit_scalar [of c]
      by (simp add: UTF16Encode_unit)
  qed
next
  case (3 c d s)
  show ?case
  proof (cases "uriUnescaped c")
    case True
    then have "well_formed (d # s)"
      using 3(4) uriUnescaped_not_surrogate [of c] by simp
    then obtain e where e: "encodeURIComponent (d # s) = Inr e"
      "decodeURIComponent (replace_reserved e) = Inr (d # s)"
      using 3(1) True by blast
    have "replace_reserved ([c] @ e) = replace_reserved [c] @ replace_reserved e"
      by (rule replace_reserved_append)
    then show ?thesis
      using True e dec_unescaped [of c "replace_reserved e"] by simp
  next
    case False
    show ?thesis
    proof (cases "is_lead c")
      case True
      then have nt: "\<not> is_trail c" by (auto simp: is_lead_def is_trail_def)
      from True 3(4) have d: "is_trail d" and "well_formed s" by simp_all
      then obtain e where e: "encodeURIComponent s = Inr e"
        "decodeURIComponent (replace_reserved e) = Inr s"
        using 3(2) False nt True by blast
      let ?p = "percent_octets (utf8_octets (UTF16SurrogatePairToCodePoint c d))"
      have "decodeURIComponent (replace_reserved (?p @ e)) = Inr ([c, d] @ s)"
        using dec_escaped [of "UTF16SurrogatePairToCodePoint c d" "replace_reserved e"]
          pair_scalar [OF True d] e UTF16Encode_pair [OF True d]
        by (simp add: replace_reserved_append)
      then show ?thesis
        using False nt True d e by simp
    next
      case nl: False
      with 3(4) have nt: "\<not> is_trail c" and "well_formed (d # s)" by simp_all
      then obtain e where e: "encodeURIComponent (d # s) = Inr e"
        "decodeURIComponent (replace_reserved e) = Inr (d # s)"
        using 3(3) False nl by blast
      let ?p = "percent_octets (utf8_octets (unat c))"
      have "decodeURIComponent (replace_reserved (?p @ e)) = Inr ([c] @ d # s)"
        using dec_escaped [of "unat c" "replace_reserved e"] unit_scalar [OF nl nt] e
        by (simp add: replace_reserved_append UTF16Encode_unit)
      then show ?thesis
        using False nt nl e by simp
    qed
  qed
qed

text \<open>
  C1. For every well-formed string \<open>t\<close> (no unpaired surrogate), \<open>encode\<close> with the
  default options returns a string, and \<open>decode\<close> with the default options maps that
  string back to \<open>t\<close>.
\<close>

theorem decode_encode_roundtrip:
  "well_formed t \<Longrightarrow>
   \<exists>e. encode (JString t) default_encode_options = Inr e
        \<and> decode (JString e) default_decode_options = Inr t"
proof -
  assume "well_formed t"
  then obtain e where e: "encodeURIComponent t = Inr e"
    "decodeURIComponent (replace_reserved e) = Inr t"
    using encodeURIComponent_roundtrip by blast
  have "encode (JString t) default_encode_options = Inr (replace_reserved e)"
    using e(1) by (simp add: encode_def default_encode_options_def)
  moreover have "decode (JString (replace_reserved e)) default_decode_options = Inr t"
    using e(2) by (simp add: decode_def default_decode_options_def)
  ultimately show ?thesis by blast
qed

theorem decode_encode_roundtrip_witness:
  "well_formed (str ''100% sure!'') \<and>
   (\<exists>e. encode (JString (str ''100% sure!'')) default_encode_options = Inr e
        \<and> decode (JString e) default_decode_options = Inr (str ''100% sure!''))"
proof -
  have wf: "well_formed (str ''100% sure!'')"
    by (simp add: str_def cu_def is_lead_def is_trail_def)
  from decode_encode_roundtrip [OF wf] wf show ?thesis
    by blast
qed

section \<open>Strict mode and the allow-list\<close>

text \<open>
  C2. The claim is that strict mode emits only \<open>A-Z a-z 0-9 - _ %\<close>, so that \<open>.\<close> and
  \<open>~\<close> are escaped. The strict branch hands every other character to
  \<open>encodeURIComponent\<close>, which leaves \<open>.\<close> and \<open>~\<close> as they are: on the README's own
  example \<open>encode('Hello.World!', {strict: true})\<close> the result is \<open>Hello.World%21\<close>, with
  the dot unescaped.
\<close>

theorem strict_mode_keeps_dot:
  "encode (JString (str ''Hello.World!''))
     \<lparr>plusForSpace = False, strict = True, allowedChars = []\<rparr>
   = Inr (str ''Hello.World%21'')"
  by (simp add: codec_eval)

text \<open>
  C3. The claim is that under the default policy the characters of \<open>allowedChars\<close> are
  emitted literally. The non-strict branch never reads \<open>allowedChars\<close>:
  \<open>encode('a@b', {allowedChars: ['@']})\<close> is \<open>a%40b\<close>.
\<close>

theorem default_mode_ignores_allowedChars:
  "encode (JString (str ''a@b''))
     \<lparr>plusForSpace = False, strict = False, allowedChars = [str ''@'']\<rparr>
   = Inr (str ''a%40b'')"
  by (simp add: codec_eval)

section \<open>The fallback of \<open>decode\<close>\<close>

lemma hexval_Some_not_percent: "hexval h = Some a \<Longrightarrow> h \<noteq> 0x25"
  by (auto simp: hexval_def split: if_splits)

lemma ParseHexOctet_Some:
  "ParseHexOctet h1 h2 = Some b \<Longrightarrow> (\<exists>a. hexval h1 = Some a) \<and> (\<exists>a. hexval h2 = Some a)"
  by (auto simp: ParseHexOctet_def split: option.splits)

lemma malformed_after_escape:
  assumes "ParseHexOctet h1 h2 = Some b" and "has_malformed_escape (0x25 # h1 # h2 # s)"
  shows "has_malformed_escape s"
proof -
  obtain a1 a2 where h: "hexval h1 = Some a1" "hexval h2 = Some a2"
    using ParseHexOctet_Some [OF assms(1)] by blast
  then have "h1 \<noteq> 0x25" "h2 \<noteq> 0x25"
    using hexval_Some_not_percent by blast+
  with assms(2) h show ?thesis by simp
qed

lemma malformed_after_continuation:
  "continuation_octets j s = Some (bs, r) \<Longrightarrow> has_malformed_escape s \<Longrightarrow> has_malformed_escape r"
proof (induction j s arbitrary: bs r rule: continuation_octets.induct)
  case (2 j p h1 h2 s)
  from "2.prems"(1) obtain b bs' where p: "p = 0x25" and b: "ParseHexOctet h1 h2 = Some b"
    and c: "continuation_octets j s = Some (bs', r)"
    by (auto split: if_splits option.splits)
  have "has_malformed_escape s"
    using malformed_after_escape [OF b] "2.prems"(2) p by simp
  with "2.IH" [OF p b c] show ?case .
qed simp_all

lemma malformed_URIError:
  "has_malformed_escape s \<Longrightarrow> decodeURIComponent s = Inl URIError"
proof (induction s rule: decodeURIComponent.induct)
  case 1
  then show ?case by simp
next
  case (2 c s)
  show ?case
  proof (cases "c = 0x25")
    case False
    with 2 show ?thesis by (simp add: prepend_def)
  next
    case pct: True
    then have npct: "\<not> c \<noteq> 0x25" by simp
    show ?thesis
    proof (cases s)
      case Nil
      with pct show ?thesis by simp
    next
      case s1: (Cons h1 s1)
      show ?thesis
      proof (cases s1)
        case Nil
        with pct s1 show ?thesis by simp
      next
        case s2: (Cons h2 s')
        show ?thesis
        proof (cases "ParseHexOctet h1 h2")
          case None
          with pct s1 s2 show ?thesis by simp
        next
          case b: (Some b)
          have m: "has_malformed_escape s'"
            using malformed_after_escape [OF b] "2.prems" pct s1 s2 by simp
          show ?thesis
          proof (cases "leading_ones b = 0")
            case z: True
            have "decodeURIComponent s' = Inl URIError"
              by (rule "2.IH"(2) [OF npct s1 s2 b z m])
            with pct s1 s2 b z show ?thesis by (simp add: prepend_def)
          next
            case nz: False
            show ?thesis
            proof (cases "leading_ones b = 1 \<or> 4 < leading_ones b")
              case True
              with pct s1 s2 b nz show ?thesis by simp
            next
              case nb: False
              show ?thesis
              proof (cases "continuation_octets (leading_ones b - 1) s'")
                case None
                with pct s1 s2 b nz nb show ?thesis by simp
              next
                case cont: (Some x)
                obtain octets s'' where x: "(octets, s'') = x" by (cases x) auto
                have m': "has_malformed_escape s''"
                  using malformed_after_continuation [of _ s' octets s''] cont x m by simp
                show ?thesis
                proof (cases "utf8_codepoint (b # octets)")
                  case None
                  with pct s1 s2 b nz nb cont x [symmetric] show ?thesis by simp
                next
                  case v: (Some v)
                  have "decodeURIComponent s'' = Inl URIError"
                    by (rule "2.IH"(3) [OF npct s1 s2 b nz nb cont x v m'])
                  with pct s1 s2 b nz nb cont x [symmetric] v show ?thesis
                    by (simp add: prepend_def)
                qed
              qed
            qed
          qed
        qed
      qed
    qed
  qed
qed

lemma malformed_map:
  assumes "\<And>x. (f x = 0x25) = (x = 0x25)"
    and "\<And>x. (hexval (f x) = None) = (hexval x = None)"
  shows "has_malformed_escape (map f s) = has_malformed_escape s"
  by (induction s) (auto split: list.splits simp: assms)

lemma replace_char_single:
  "replace_char c [r] s = map (\<lambda>x. if x = c then r else x) s"
  by (induction s) (simp_all add: replace_char_def)

lemma malformed_plus_substitution:
  "has_malformed_escape (replace_char 0x2B (str '' '') s) = has_malformed_escape s"
proof -
  have "replace_char 0x2B (str '' '') s = map (\<lambda>x. if x = 0x2B then 0x20 else x) s"
    using replace_char_single [of "0x2B" "0x20" s] by (simp add: str_def cu_def)
  moreover have "has_malformed_escape (map (\<lambda>x. if x = 0x2B then 0x20 else x) s)
                   = has_malformed_escape s"
    by (rule malformed_map) (simp_all add: hexval_def)
  ultimately show ?thesis by simp
qed

text \<open>
  C4, as the code has it. For every string \<open>s\<close> with a malformed percent escape and
  every option record, \<open>decode\<close> does not raise and returns \<open>s\<close> itself, the
  argument as it was received: with \<open>plusAsSpace\<close> set the plus signs of \<open>s\<close> are
  still plus signs in the result. In particular \<open>decode("Hello%2")\<close> is \<open>Hello%2\<close>.
\<close>

theorem decode_malformed_returns_input:
  "has_malformed_escape s \<Longrightarrow> decode (JString s) options = Inr s"
proof -
  assume m: "has_malformed_escape s"
  let ?d = "if plusAsSpace options then replace_char 0x2B (str '' '') s else s"
  have "has_malformed_escape ?d"
    using m by (simp add: malformed_plus_substitution)
  then have "decodeURIComponent ?d = Inl URIError"
    by (rule malformed_URIError)
  then show ?thesis
    by (simp add: decode_def Let_def)
qed

theorem decode_malformed_returns_input_witness:
  "has_malformed_escape (str ''Hello%2'')
   \<and> decode (JString (str ''Hello%2'')) default_decode_options = Inr (str ''Hello%2'')
   \<and> has_malformed_escape (str ''a+%zz'')
   \<and> decode (JString (str ''a+%zz'')) \<lparr>plusAsSpace = True\<rparr> = Inr (str ''a+%zz'')"
proof -
  have m1: "has_malformed_escape (str ''Hello%2'')"
    by (simp add: str_def cu_def)
  have m2: "has_malformed_escape (str ''a+%zz'')"
    by (simp add: str_def cu_def hexval_def)
  show ?thesis
    using m1 m2 decode_malformed_returns_input [OF m1, of default_decode_options]
      decode_malformed_returns_input [OF m2, of "\<lparr>plusAsSpace = True\<rparr>"]
    by simp
qed

text \<open>
  C4 as claimed fails: with \<open>plusAsSpace\<close> set, \<open>decode("a+b%2")\<close> returns
  \<open>a+b%2\<close>, not the plus-substituted \<open>a b%2\<close>.
\<close>

theorem decode_fallback_counterexample:
  "decode (JString (str ''a+b%2'')) \<lparr>plusAsSpace = True\<rparr> = Inr (str ''a+b%2'')
   \<and> replace_char 0x2B (str '' '') (str ''a+b%2'') = str ''a b%2''
   \<and> str ''a+b%2'' \<noteq> str ''a b%2''"
  by (simp add: codec_eval)

section \<open>What the library raises\<close>

lemma encodeURIComponent_total:
  "well_formed s \<Longrightarrow> \<exists>e. encodeURIComponent s = Inr e"
  using encodeURIComponent_roundtrip by blast

lemma encodeURIComponent_error:
  "\<not> well_formed s \<Longrightarrow> encodeURIComponent s = Inl URIError"
proof (induction s rule: encodeURIComponent.induct)
  case 1
  then show ?case by simp
next
  case (2 c)
  then show ?case using uriUnescaped_not_surrogate [of c] by auto
next
  case (3 c d s)
  then show ?case
    using uriUnescaped_not_surrogate [of c]
    by (auto simp: prepend_def split: if_splits)
qed

lemma strict_char_total:
  assumes "well_formed ch"
  shows "\<exists>r. strict_char allowed ch = Inr r"
proof -
  obtain e where "encodeURIComponent ch = Inr e"
    using encodeURIComponent_total [OF assms] by blast
  then show ?thesis by (simp add: strict_char_def)
qed

lemma strict_chars_total:
  "well_formed s \<Longrightarrow> \<exists>parts. map_throwing (strict_char allowed) (Array_from s) = Inr parts"
proof (induction s rule: Array_from.induct)
  case 1
  then show ?case by simp
next
  case (2 c)
  then have "well_formed [c]" by simp
  then obtain r where "strict_char allowed [c] = Inr r"
    using strict_char_total by blast
  then show ?case by simp
next
  case (3 c d s)
  show ?case
  proof (cases "is_lead c")
    case True
    with 3(3) have d: "is_trail d" and wf: "well_formed s" by simp_all
    then have "well_formed [c, d]" using True by simp
    then obtain r where r: "strict_char allowed [c, d] = Inr r"
      using strict_char_total by blast
    obtain parts where "map_throwing (strict_char allowed) (Array_from s) = Inr parts"
      using 3(1) True d wf by blast
    with True d r show ?thesis by simp
  next
    case False
    with 3(3) have nt: "\<not> is_trail c" and wf: "well_formed (d # s)" by simp_all
    then have "well_formed [c]" using False by simp
    then obtain r where r: "strict_char allowed [c] = Inr r"
      using strict_char_total by blast
    obtain parts where "map_throwing (strict_char allowed) (Array_from (d # s)) = Inr parts"
      using 3(2) False wf by blast
    with False r show ?thesis by simp
  qed
qed

lemma encode_total:
  assumes "well_formed s"
  shows "\<exists>r. encode (JString s) options = Inr r"
proof -
  obtain e where e: "encodeURIComponent s = Inr e"
    using encodeURIComponent_total [OF assms] by blast
  obtain parts where p: "map_throwing (strict_char (allowedChars options)) (Array_from s) = Inr parts"
    using strict_chars_total [OF assms] by blast
  show ?thesis
    using e p by (simp add: encode_def)
qed

lemma encode_error:
  "\<not> well_formed s \<Longrightarrow> encode (JString s) options = Inl URIError"
  by (simp add: encode_def encodeURIComponent_error)

lemma encodeUrl_string:
  "encodeUrl new_URL (JString u) = Inl e \<Longrightarrow> encode (JString u) default_encode_options = Inl e"
  by (auto simp: encodeUrl_def split: sum.splits)

text \<open>
  C5, as the code has it. Each of \<open>encode\<close>, \<open>decode\<close> and \<open>encodeUrl\<close> raises
  \<open>TypeError\<close> on every argument that is not a string. On a string, \<open>decode\<close> always
  returns. \<open>encode\<close> returns exactly on the strings without unpaired surrogates and
  raises \<open>URIError\<close> on the others, whatever the options. \<open>encodeUrl\<close> returns on every
  string without unpaired surrogates, whatever the URL parser does, and when it raises on a
  string, it raises \<open>URIError\<close> and the string has an unpaired surrogate.
\<close>

theorem raises_exactly:
  "(\<not> is_string v \<longrightarrow>
      encode v eo = Inl TypeError \<and> decode v dopt = Inl TypeError
      \<and> encodeUrl new_URL v = Inl TypeError)
   \<and> (\<exists>r. decode (JString s) dopt = Inr r)
   \<and> (well_formed s \<longrightarrow>
        (\<exists>r. encode (JString s) eo = Inr r) \<and> (\<exists>r. encodeUrl new_URL (JString s) = Inr r))
   \<and> (\<not> well_formed s \<longrightarrow> encode (JString s) eo = Inl URIError)
   \<and> (\<forall>e. encodeUrl new_URL (JString s) = Inl e \<longrightarrow> e = URIError \<and> \<not> well_formed s)"
proof (intro conjI impI allI)
  assume "\<not> is_string v"
  then show "encode v eo = Inl TypeError" "decode v dopt = Inl TypeError"
    "encodeUrl new_URL v = Inl TypeError"
    by (cases v; simp add: is_string_def encode_def decode_def encodeUrl_def)+
next
  show "\<exists>r. decode (JString s) dopt = Inr r"
    by (simp add: decode_def Let_def split: sum.splits)
next
  assume "well_formed s"
  then show "\<exists>r. encode (JString s) eo = Inr r" by (rule encode_total)
next
  assume wf: "well_formed s"
  show "\<exists>r. encodeUrl new_URL (JString s) = Inr r"
  proof (cases "encodeUrl new_URL (JString s)")
    case (Inl e)
    then show ?thesis
      using encodeUrl_string [OF Inl] encode_total [OF wf, of default_encode_options] by simp
  next
    case (Inr r)
    then show ?thesis by simp
  qed
next
  assume "\<not> well_formed s"
  then show "encode (JString s) eo = Inl URIError" by (rule encode_error)
next
  fix e assume e: "encodeUrl new_URL (JString s) = Inl e"
  have f: "encode (JString s) default_encode_options = Inl e"
    by (rule encodeUrl_string [OF e])
  show "e = URIError" "\<not> well_formed s"
    using f encode_total [of s default_encode_options] encode_error [of s default_encode_options]
    by auto
qed

theorem raises_exactly_witness:
  "\<not> is_string JNull
   \<and> encode JNull default_encode_options = Inl TypeError
   \<and> decode JNull default_decode_options = Inl TypeError
   \<and> encodeUrl (\<lambda>u. None) JNull = Inl TypeError
   \<and> (\<exists>r. decode (JString [0xD800]) default_decode_options = Inr r)
   \<and> well_formed (str ''a b'')
   \<and> (\<exists>r. encode (JString (str ''a b'')) default_encode_options = Inr r)
   \<and> (\<exists>r. encodeUrl (\<lambda>u. None) (JString (str ''a b'')) = Inr r)
   \<and> \<not> well_formed [0xD800]
   \<and> encode (JString [0xD800]) default_encode_options = Inl URIError
   \<and> encodeUrl (\<lambda>u. None) (JString [0xD800]) = Inl URIError"
proof -
  have a: "\<not> is_string JNull" by (simp add: is_string_def)
  have b: "well_formed (str ''a b'')" by (simp add: codec_eval)
  have c: "\<not> well_formed [0xD800]" by (simp add: codec_eval)
  have d: "encodeUrl (\<lambda>u. None) (JString [0xD800]) = Inl URIError"
    by (simp add: encodeUrl_def encodeUrl_try_def codec_eval)
  show ?thesis
    using a b c d
      raises_exactly [of JNull default_encode_options default_decode_options "\<lambda>u. None"
        "str ''a b''"]
      raises_exactly [of JNull default_encode_options default_decode_options "\<lambda>u. None"
        "[0xD800]"]
    by simp
qed

text \<open>
  C5 as claimed fails: a string that consists of one unpaired surrogate makes
  \<open>encode\<close> raise \<open>URIError\<close>, which is not a type error.
\<close>

theorem encode_lone_surrogate_counterexample:
  "encode (JString [0xD800]) default_encode_options = Inl URIError"
  by (simp add: codec_eval)

section \<open>Decoding a query string\<close>

lemma split_on_unfold:
  "split_on c p =
     takeWhile (\<lambda>x. x \<noteq> c) p #
       (case dropWhile (\<lambda>x. x \<noteq> c) p of [] \<Rightarrow> [] | _ # r \<Rightarrow> split_on c r)"
  by (induction p) (auto split: list.splits)

lemma takeWhile_upto: "c \<notin> set k \<Longrightarrow> takeWhile (\<lambda>x. x \<noteq> c) (k @ c # t) = k"
  by (induction k) auto

lemma dropWhile_upto: "c \<notin> set k \<Longrightarrow> dropWhile (\<lambda>x. x \<noteq> c) (k @ c # t) = c # t"
  by (induction k) auto

lemma takeWhile_absent: "c \<notin> set k \<Longrightarrow> takeWhile (\<lambda>x. x \<noteq> c) k = k"
  by (induction k) auto

lemma dropWhile_absent: "c \<notin> set k \<Longrightarrow> dropWhile (\<lambda>x. x \<noteq> c) k = []"
  by (induction k) auto

lemma split_on_first: "\<exists>ps. split_on 0x3D pair = pair_key pair # ps
    \<and> (case ps of [] \<Rightarrow> [] | v # _ \<Rightarrow> v) = pair_value pair"
proof (cases "dropWhile (\<lambda>x. x \<noteq> 0x3D) pair")
  case Nil
  have "split_on 0x3D pair = [pair_key pair]"
    by (subst split_on_unfold) (simp add: Nil pair_key_def)
  moreover have "pair_value pair = []"
    by (simp add: pair_value_def Nil)
  ultimately show ?thesis by simp
next
  case (Cons a r)
  have "split_on 0x3D pair = pair_key pair # split_on 0x3D r"
    by (subst split_on_unfold) (simp add: Cons pair_key_def)
  moreover have "\<exists>ps. split_on 0x3D r = takeWhile (\<lambda>x. x \<noteq> 0x3D) r # ps"
    by (subst split_on_unfold) simp
  moreover have "pair_value pair = takeWhile (\<lambda>x. x \<noteq> 0x3D) r"
    by (simp add: pair_value_def Cons)
  ultimately show ?thesis by auto
qed

lemma decode_string: "decode (JString s) options = Inr (decoded options s)"
  by (simp add: decode_def decoded_def Let_def split: sum.splits)

lemma decode_pair_eq: "decode_pair options result pair = Inr (assign_pair options pair result)"
proof -
  obtain ps where "split_on 0x3D pair = pair_key pair # ps"
    "(case ps of [] \<Rightarrow> [] | v # _ \<Rightarrow> v) = pair_value pair"
    using split_on_first by blast
  then show ?thesis
    by (simp add: decode_pair_def assign_pair_def decode_string Let_def)
qed

lemma decode_pairs_eq:
  "decode_pairs options result pairs = Inr (fold (assign_pair options) pairs result)"
  by (induction pairs arbitrary: result) (simp_all add: decode_pair_eq)

lemma decodeQuery_eq:
  "decodeQuery q options = Inr (fold (assign_pair options) (query_pairs q) Map.empty)"
  by (cases q) (simp_all add: decodeQuery_def query_pairs_def decode_pairs_eq Let_def)

text \<open>
  How \<open>decodeQuery\<close> takes its input apart: it never raises; it strips one leading
  \<open>?\<close>, maps empty and solely-\<open>?\<close> input to the empty map and splits the remainder
  on \<open>&\<close>. The key of a pair is the text before its first \<open>=\<close>, the value the text
  between the first and the second \<open>=\<close>; a pair without \<open>=\<close> has the empty string
  as value.
\<close>

lemma decodeQuery_decomposition:
  "decodeQuery q options = Inr (fold (assign_pair options) (query_pairs q) Map.empty)
   \<and> query_pairs [] = [] \<and> query_pairs (str ''?'') = []
   \<and> (0x3D \<notin> set k \<longrightarrow> pair_key k = k \<and> pair_value k = [])
   \<and> (0x3D \<notin> set k \<longrightarrow> 0x3D \<notin> set v \<longrightarrow>
        pair_key (k @ str ''='' @ v) = k \<and> pair_value (k @ str ''='' @ v) = v
        \<and> pair_key (k @ str ''='' @ v @ str ''='' @ rest) = k
        \<and> pair_value (k @ str ''='' @ v @ str ''='' @ rest) = v)"
proof -
  have eq: "str ''='' = [0x3D]" by (simp add: str_def cu_def)
  have q: "str ''?'' = [0x3F]" by (simp add: str_def cu_def)
  have v1: "pair_value (k @ 0x3D # v) = v" if "0x3D \<notin> set k" "0x3D \<notin> set v"
    using that by (simp add: pair_value_def dropWhile_upto takeWhile_absent)
  have v2: "pair_value (k @ 0x3D # v @ 0x3D # rest) = v" if "0x3D \<notin> set k" "0x3D \<notin> set v"
    using that by (simp add: pair_value_def dropWhile_upto takeWhile_upto)
  have v0: "pair_value k = []" if "0x3D \<notin> set k"
    using that by (simp add: pair_value_def dropWhile_absent)
  show ?thesis
    using v0 v1 v2
    by (simp add: decodeQuery_eq query_pairs_def eq q pair_key_def takeWhile_upto takeWhile_absent)
qed

lemma decodeQuery_valueless_key:
  "decodeQuery (str ''key1&key2=value2'') default_decode_options
     = Inr [str ''key1'' \<mapsto> [], str ''key2'' \<mapsto> str ''value2'']
   \<and> decodeQuery (str ''?'') default_decode_options = Inr Map.empty
   \<and> 0x3D \<notin> set (str ''key1'') \<and> pair_value (str ''key1'') = []
   \<and> 0x3D \<notin> set (str ''b'') \<and> pair_value (str ''key1=b=c'') = str ''b''"
proof -
  have a: "0x3D \<notin> set (str ''key1'')" "0x3D \<notin> set (str ''b'')"
    by (simp_all add: str_def cu_def)
  have b: "fold (assign_pair default_decode_options) (query_pairs (str ''key1&key2=value2''))
             Map.empty = [str ''key1'' \<mapsto> [], str ''key2'' \<mapsto> str ''value2'']"
    by (simp add: query_pairs_def assign_pair_def pair_key_def pair_value_def decoded_def
        obj_assign_def codec_eval)
  show ?thesis
    using a b
      decodeQuery_decomposition [of "str ''key1&key2=value2''" default_decode_options
        "str ''key1''" "str ''b''" "str ''c''"]
      decodeQuery_decomposition [of "str ''?''" default_decode_options
        "str ''key1''" "str ''b''" "str ''c''"]
    by (simp add: str_def cu_def)
qed

text \<open>
  C6. The claim is that each pair is split on its first \<open>=\<close>, so that the value of the
  pair \<open>a=b=c\<close> is \<open>b=c\<close>. The code takes the first two elements of
  \<open>pair.split('=')\<close>, which cuts at every \<open>=\<close>: the pair \<open>a=b=c\<close> yields key
  \<open>a\<close> with value \<open>b\<close>, and \<open>=c\<close> is lost.
\<close>

theorem decodeQuery_cuts_value_at_second_equals:
  "decodeQuery (str ''a=b=c'') default_decode_options = Inr [str ''a'' \<mapsto> str ''b'']
   \<and> str ''b'' \<noteq> str ''b=c''"
  by (simp add: decodeQuery_def decode_pair_def obj_assign_def codec_eval)

section \<open>The key \<open>__proto__\<close>\<close>

lemma obj_assign_proto:
  "obj (str ''__proto__'') = None \<Longrightarrow> obj_assign obj key val (str ''__proto__'') = None"
  by (simp add: obj_assign_def)

lemma fold_assign_pair_proto:
  "obj (str ''__proto__'') = None \<Longrightarrow>
   fold (assign_pair options) pairs obj (str ''__proto__'') = None"
  by (induction pairs arbitrary: obj) (simp_all add: assign_pair_def obj_assign_proto)

lemma decodeQuery_no_proto:
  "\<exists>obj. decodeQuery q options = Inr obj \<and> obj (str ''__proto__'') = None"
  by (simp add: decodeQuery_eq fold_assign_pair_proto)

lemma decoded_proto: "decoded options (str ''__proto__'') = str ''__proto__''"
  by (simp add: decoded_def codec_eval)

lemma split_on_absent: "c \<notin> set s \<Longrightarrow> split_on c s = [s]"
  by (induction s) auto

lemma proto_pair_dropped:
  assumes "0x26 \<notin> set v"
  shows "decodeQuery (str ''__proto__='' @ v) options = Inr Map.empty"
proof -
  define t where "t = tl (str ''__proto__='')"
  have h: "str ''__proto__='' = 0x5F # t"
    by (simp add: t_def str_def cu_def)
  have p: "str ''__proto__='' = str ''__proto__'' @ [0x3D]" and k: "0x3D \<notin> set (str ''__proto__'')"
    and a: "0x26 \<notin> set (str ''__proto__='')"
    by (simp_all add: str_def cu_def)
  have "0x26 \<notin> set (0x5F # t @ v)"
    using assms a unfolding h by simp
  then have "split_on 0x26 (0x5F # t @ v) = [0x5F # t @ v]"
    by (rule split_on_absent)
  then have "query_pairs (0x5F # t @ v) = [0x5F # t @ v]"
    by (simp add: query_pairs_def del: split_on.simps)
  then have "query_pairs (str ''__proto__='' @ v) = [str ''__proto__='' @ v]"
    unfolding h by simp
  moreover have "pair_key (str ''__proto__='' @ v) = str ''__proto__''"
    using k by (simp add: p pair_key_def takeWhile_upto)
  ultimately show ?thesis
    by (simp add: decodeQuery_eq assign_pair_def decoded_proto obj_assign_def)
qed

text \<open>
  C10. For every value string \<open>v\<close> and every option record, the result of
  \<open>decodeQuery("__proto__=" + v)\<close> has no own entry for the key \<open>__proto__\<close>; when
  \<open>v\<close> has no \<open>&\<close> the result is the empty object, the pair being dropped. Hence
  for every map whose entries include the key \<open>__proto__\<close>, whatever \<open>encodeQuery\<close>
  returns is decoded to an object without that key: the round trip loses it.
\<close>

theorem decodeQuery_drops_proto:
  "(\<exists>obj. decodeQuery (str ''__proto__='' @ v) options = Inr obj
          \<and> obj (str ''__proto__'') = None)
   \<and> (0x26 \<notin> set v \<longrightarrow> decodeQuery (str ''__proto__='' @ v) options = Inr Map.empty)
   \<and> (\<forall>q. str ''__proto__'' \<in> fst ` set m \<longrightarrow> encodeQuery num_str m eo = Inr q \<longrightarrow>
          (\<exists>obj. decodeQuery q options = Inr obj \<and> obj (str ''__proto__'') = None
                 \<and> map_of m (str ''__proto__'') \<noteq> None))"
  using decodeQuery_no_proto proto_pair_dropped
  by (auto simp: map_of_eq_None_iff)

theorem decodeQuery_drops_proto_witness:
  "0x26 \<notin> set (str ''x'')
   \<and> decodeQuery (str ''__proto__=x'') default_decode_options = Inr Map.empty
   \<and> str ''__proto__'' \<in> fst ` set [(str ''__proto__'', JString (str ''x''))]
   \<and> encodeQuery (\<lambda>n. []) [(str ''__proto__'', JString (str ''x''))] default_encode_options
        = Inr (str ''__proto__=x'')
   \<and> (\<exists>obj. decodeQuery (str ''__proto__=x'') default_decode_options = Inr obj
          \<and> obj (str ''__proto__'') = None
          \<and> map_of [(str ''__proto__'', JString (str ''x''))] (str ''__proto__'') \<noteq> None)"
proof -
  have a: "0x26 \<notin> set (str ''x'')" by (simp add: str_def cu_def)
  have b: "str ''__proto__'' \<in> fst ` set [(str ''__proto__'', JString (str ''x''))]" by simp
  have c: "encodeQuery (\<lambda>n. []) [(str ''__proto__'', JString (str ''x''))] default_encode_options
        = Inr (str ''__proto__=x'')"
    by (simp add: encodeQuery_def encode_entry_def ToString_def codec_eval)
  have d: "str ''__proto__='' @ str ''x'' = str ''__proto__=x''" by (simp add: str_def)
  show ?thesis
    using a b c
      decodeQuery_drops_proto [of "str ''x''" default_decode_options
        "[(str ''__proto__'', JString (str ''x''))]" "\<lambda>n. []" default_encode_options]
    unfolding d by blast
qed

section \<open>Round trip of a query map\<close>

lemma url_safe_replace_single:
  "uriUnescaped c \<Longrightarrow> list_all url_safe (replace_reserved [c])"
  by (auto simp: replace_reserved_single uriUnescaped_def url_safe_def str_def cu_def is_alnum_def)

lemma list_all_url_safe_prepend:
  "prepend p r = Inr e \<Longrightarrow> \<exists>e'. r = Inr e' \<and> e = p @ e'"
  by (cases r) simp_all

lemma encodeURIComponent_url_safe:
  "encodeURIComponent t = Inr e \<Longrightarrow> list_all url_safe (replace_reserved e)"
proof (induction t arbitrary: e rule: encodeURIComponent.induct)
  case 1
  then show ?case by (simp add: replace_reserved_Nil)
next
  case (2 c)
  show ?case
  proof (cases "uriUnescaped c")
    case True
    with 2 show ?thesis using url_safe_replace_single [of c] by simp
  next
    case False
    with 2 have e: "e = percent_octets (utf8_octets (unat c))"
      by (simp split: if_splits)
    have "unat c < 2 ^ 16" using unsigned_less [of c] by simp
    then have "list_all url_safe e"
      unfolding e by (intro url_safe_percent_octets utf8_octets_bytes) simp
    then show ?thesis by (simp add: replace_reserved_url_safe)
  qed
next
  case (3 c d s)
  show ?case
  proof (cases "uriUnescaped c")
    case True
    with 3(4) obtain e' where e': "encodeURIComponent (d # s) = Inr e'" "e = [c] @ e'"
      using list_all_url_safe_prepend [of "[c]" "encodeURIComponent (d # s)" e] by auto
    have "list_all url_safe (replace_reserved e')"
      by (rule 3(1) [OF True e'(1)])
    then show ?thesis
      using url_safe_replace_single [OF True]
      unfolding e'(2) replace_reserved_append by simp
  next
    case False
    show ?thesis
    proof (cases "is_lead c")
      case True
      with False 3(4) have nt: "\<not> is_trail c" and d: "is_trail d"
        by (auto split: if_splits)
      let ?p = "percent_octets (utf8_octets (UTF16SurrogatePairToCodePoint c d))"
      obtain e' where e': "encodeURIComponent s = Inr e'" "e = ?p @ e'"
        using list_all_url_safe_prepend [of ?p "encodeURIComponent s" e] 3(4) False nt True d
        by auto
      have "list_all url_safe (replace_reserved e')"
        by (rule 3(2) [OF False nt True d e'(1)])
      moreover have "list_all url_safe ?p"
        using pair_range [OF True d] by (intro url_safe_percent_octets utf8_octets_bytes) simp
      ultimately show ?thesis
        unfolding e'(2) replace_reserved_append by (simp add: replace_reserved_url_safe)
    next
      case nl: False
      with False 3(4) have nt: "\<not> is_trail c"
        by (auto split: if_splits)
      let ?p = "percent_octets (utf8_octets (unat c))"
      obtain e' where e': "encodeURIComponent (d # s) = Inr e'" "e = ?p @ e'"
        using list_all_url_safe_prepend [of ?p "encodeURIComponent (d # s)" e] 3(4) False nt nl
        by auto
      have "list_all url_safe (replace_reserved e')"
        by (rule 3(3) [OF False nt nl e'(1)])
      moreover have "unat c < 2 ^ 16" using unsigned_less [of c] by simp
      then have "list_all url_safe ?p"
        by (intro url_safe_percent_octets utf8_octets_bytes) simp
      ultimately show ?thesis
        unfolding e'(2) replace_reserved_append by (simp add: replace_reserved_url_safe)
    qed
  qed
qed

lemma encode_field:
  assumes "well_formed t"
  shows "\<exists>e. encode (JString t) default_encode_options = Inr e \<and> list_all url_safe e
             \<and> decoded default_decode_options e = t"
proof -
  obtain e0 where e0: "encodeURIComponent t = Inr e0"
    "decodeURIComponent (replace_reserved e0) = Inr t"
    using encodeURIComponent_roundtrip [OF assms] by blast
  have "encode (JString t) default_encode_options = Inr (replace_reserved e0)"
    using e0(1) by (simp add: encode_def default_encode_options_def)
  moreover have "list_all url_safe (replace_reserved e0)"
    by (rule encodeURIComponent_url_safe [OF e0(1)])
  moreover have "decoded default_decode_options (replace_reserved e0) = t"
    using e0(2) by (simp add: decoded_def decode_def default_decode_options_def)
  ultimately show ?thesis by blast
qed

lemma url_safe_separators:
  "list_all url_safe e \<Longrightarrow> 0x26 \<notin> set e \<and> 0x3D \<notin> set e \<and> 0x3F \<notin> set e"
  by (auto simp: list_all_iff url_safe_def is_alnum_def)

lemma encode_entry_part:
  assumes "usv_entry num_str kv"
  shows "\<exists>part. encode_entry num_str default_encode_options kv = Inr part
            \<and> entry_part (fst kv, ToString num_str (snd kv)) part"
proof -
  obtain ek where ek: "encode (JString (fst kv)) default_encode_options = Inr ek"
    "list_all url_safe ek" "decoded default_decode_options ek = fst kv"
    using encode_field assms unfolding usv_entry_def by blast
  obtain ev where ev: "encode (JString (ToString num_str (snd kv))) default_encode_options = Inr ev"
    "list_all url_safe ev" "decoded default_decode_options ev = ToString num_str (snd kv)"
    using encode_field assms unfolding usv_entry_def by blast
  have "encode_entry num_str default_encode_options kv = Inr (ek @ 0x3D # ev)"
    using ek(1) ev(1) by (simp add: encode_entry_def str_def cu_def)
  moreover have "entry_part (fst kv, ToString num_str (snd kv)) (ek @ 0x3D # ev)"
    using ek ev unfolding entry_part_def by auto
  ultimately show ?thesis by blast
qed

lemma encode_entries_parts:
  "list_all (usv_entry num_str) m \<Longrightarrow>
   \<exists>parts. map_throwing (encode_entry num_str default_encode_options) m = Inr parts
     \<and> list_all2 entry_part (stringified num_str m) parts"
proof (induction m)
  case Nil
  then show ?case by (simp add: stringified_def)
next
  case (Cons kv m)
  then obtain parts where p: "map_throwing (encode_entry num_str default_encode_options) m = Inr parts"
    "list_all2 entry_part (stringified num_str m) parts"
    by auto
  obtain part where q: "encode_entry num_str default_encode_options kv = Inr part"
    "entry_part (fst kv, ToString num_str (snd kv)) part"
    using encode_entry_part [of num_str kv] Cons.prems by auto
  show ?case
    using p q by (simp add: stringified_def)
qed

lemma entry_part_separators:
  "entry_part kv part \<Longrightarrow> part \<noteq> [] \<and> 0x26 \<notin> set part \<and> 0x3F \<notin> set part"
  using url_safe_separators by (auto simp: entry_part_def)

lemma split_on_upto: "c \<notin> set x \<Longrightarrow> split_on c (x @ c # rest) = x # split_on c rest"
  by (induction x) auto

lemma split_on_join:
  "parts \<noteq> [] \<Longrightarrow> list_all (\<lambda>p. c \<notin> set p) parts \<Longrightarrow>
   split_on c (join [c] parts) = parts"
proof (induction "[c]" parts rule: join.induct)
  case 1
  then show ?case by simp
next
  case (2 x)
  then show ?case by (simp add: split_on_absent)
next
  case (3 x y ys)
  then show ?case by (simp add: split_on_upto)
qed

lemma entry_parts_no_amp:
  "list_all2 entry_part kvs parts \<Longrightarrow> list_all (\<lambda>p. 0x26 \<notin> set p) parts"
  by (induction rule: list_all2_induct) (auto dest: entry_part_separators)

lemma query_pairs_join:
  assumes "list_all2 entry_part kvs parts"
  shows "query_pairs (join (str ''&'') parts) = parts"
proof (cases parts)
  case Nil
  then show ?thesis by (simp add: query_pairs_def)
next
  case (Cons p ps)
  have amp: "str ''&'' = [0x26]" by (simp add: str_def cu_def)
  have all: "list_all (\<lambda>p. 0x26 \<notin> set p) parts"
    by (rule entry_parts_no_amp [OF assms])
  obtain kv where "entry_part kv p"
    using assms Cons by (auto simp: list_all2_Cons2)
  then have p: "p \<noteq> []" "0x3F \<notin> set p"
    using entry_part_separators by blast+
  then obtain a p' where a: "p = a # p'" "a \<noteq> 0x3F"
    by (cases p) auto
  have "join [0x26] parts \<noteq> [] \<and> hd (join [0x26] parts) = a"
    unfolding Cons a by (cases ps) simp_all
  moreover have "split_on 0x26 (join [0x26] parts) = parts"
    using all Cons by (intro split_on_join) simp_all
  ultimately show ?thesis
    using a(2) by (simp add: query_pairs_def amp Let_def)
qed

lemma assign_entry_part:
  assumes "entry_part kv part" and "fst kv \<noteq> str ''__proto__''"
  shows "assign_pair default_decode_options part obj = obj(fst kv \<mapsto> snd kv)"
proof -
  obtain ek ev where e: "part = ek @ 0x3D # ev" "list_all url_safe ek" "list_all url_safe ev"
    "decoded default_decode_options ek = fst kv" "decoded default_decode_options ev = snd kv"
    using assms(1) unfolding entry_part_def by blast
  have n: "0x3D \<notin> set ek" "0x3D \<notin> set ev"
    using e(2,3) url_safe_separators by blast+
  have "pair_key part = ek"
    using n by (simp add: e(1) pair_key_def takeWhile_upto)
  moreover have "pair_value part = ev"
    using n by (simp add: e(1) pair_value_def dropWhile_upto takeWhile_absent)
  ultimately show ?thesis
    using e(4,5) assms(2) by (simp add: assign_pair_def obj_assign_def)
qed

lemma fold_assign_parts:
  "list_all2 entry_part kvs parts \<Longrightarrow> distinct (map fst kvs) \<Longrightarrow>
   str ''__proto__'' \<notin> fst ` set kvs \<Longrightarrow>
   fold (assign_pair default_decode_options) parts obj = obj ++ map_of kvs"
proof (induction kvs parts arbitrary: obj rule: list_all2_induct)
  case Nil
  then show ?case by simp
next
  case (Cons kv kvs part parts)
  have k: "fst kv \<noteq> str ''__proto__''" and d: "fst kv \<notin> dom (map_of kvs)"
    using Cons.prems by (auto simp: dom_map_of_conv_image_fst)
  have d': "distinct (map fst kvs)" and p': "str ''__proto__'' \<notin> fst ` set kvs"
    using Cons.prems by auto
  have "fold (assign_pair default_decode_options) (part # parts) obj
          = fold (assign_pair default_decode_options) parts
              (assign_pair default_decode_options part obj)"
    by simp
  also have "\<dots> = fold (assign_pair default_decode_options) parts (obj(fst kv \<mapsto> snd kv))"
    by (simp only: assign_entry_part [OF Cons.hyps(1) k])
  also have "\<dots> = (obj(fst kv \<mapsto> snd kv)) ++ map_of kvs"
    by (rule Cons.IH [OF d' p'])
  also have "\<dots> = (obj ++ map_of kvs)(fst kv \<mapsto> snd kv)"
    using d by (rule map_add_upd_left)
  also have "\<dots> = obj ++ map_of (kv # kvs)"
    by (cases kv) simp
  finally show ?case .
qed

lemma stringified_strings:
  "list_all (\<lambda>kv. is_string (snd kv)) m \<Longrightarrow>
   map (\<lambda>kv. (fst kv, JString (snd kv))) (stringified num_str m) = m"
  by (induction m)
     (auto simp: stringified_def is_string_def ToString_def split: jsvalue.splits)

text \<open>
  C7, as the code has it. For every map with distinct keys, none of them \<open>__proto__\<close>,
  whose keys and stringified values have no unpaired surrogate, \<open>encodeQuery\<close> with the
  default options returns a string that \<open>decodeQuery\<close> maps to the map with the same keys
  and every value replaced by its string form \<open>String(value)\<close>. When all values are
  strings this is the map itself.
\<close>

theorem query_roundtrip_as_strings:
  assumes "distinct (map fst m)" and "str ''__proto__'' \<notin> fst ` set m"
    and "list_all (usv_entry num_str) m"
  shows "(\<exists>q. encodeQuery num_str m default_encode_options = Inr q
             \<and> decodeQuery q default_decode_options = Inr (map_of (stringified num_str m)))
         \<and> (list_all (\<lambda>kv. is_string (snd kv)) m \<longrightarrow>
               map (\<lambda>kv. (fst kv, JString (snd kv))) (stringified num_str m) = m)"
proof -
  obtain parts where p: "map_throwing (encode_entry num_str default_encode_options) m = Inr parts"
    "list_all2 entry_part (stringified num_str m) parts"
    using encode_entries_parts [OF assms(3)] by blast
  have keys: "map fst (stringified num_str m) = map fst m"
    by (simp add: stringified_def comp_def)
  have "fst ` set (stringified num_str m) = set (map fst (stringified num_str m))"
    by simp
  then have k: "distinct (map fst (stringified num_str m))"
    "str ''__proto__'' \<notin> fst ` set (stringified num_str m)"
    using assms(1,2) unfolding keys by simp_all
  have "encodeQuery num_str m default_encode_options = Inr (join (str ''&'') parts)"
    using p(1) by (simp add: encodeQuery_def)
  moreover have "decodeQuery (join (str ''&'') parts) default_decode_options
                   = Inr (map_of (stringified num_str m))"
    using query_pairs_join [OF p(2)] fold_assign_parts [OF p(2) k, of Map.empty]
    by (simp add: decodeQuery_eq)
  ultimately show ?thesis
    using stringified_strings by blast
qed

theorem query_roundtrip_as_strings_witness:
  "distinct (map fst [(str ''name'', JString (str ''John Doe'')), (str ''active'', JBoolean True)])
   \<and> str ''__proto__'' \<notin>
        fst ` set [(str ''name'', JString (str ''John Doe'')), (str ''active'', JBoolean True)]
   \<and> list_all (usv_entry (\<lambda>n. []))
        [(str ''name'', JString (str ''John Doe'')), (str ''active'', JBoolean True)]
   \<and> (\<exists>q. encodeQuery (\<lambda>n. [])
              [(str ''name'', JString (str ''John Doe'')), (str ''active'', JBoolean True)]
              default_encode_options = Inr q
          \<and> decodeQuery q default_decode_options
              = Inr [str ''name'' \<mapsto> str ''John Doe'', str ''active'' \<mapsto> str ''true''])
   \<and> list_all (\<lambda>kv. is_string (snd kv)) [(str ''name'', JString (str ''John Doe''))]
   \<and> map (\<lambda>kv. (fst kv, JString (snd kv)))
         (stringified (\<lambda>n. []) [(str ''name'', JString (str ''John Doe''))])
       = [(str ''name'', JString (str ''John Doe''))]"
proof -
  let ?m = "[(str ''name'', JString (str ''John Doe'')), (str ''active'', JBoolean True)]"
  let ?m1 = "[(str ''name'', JString (str ''John Doe''))]"
  have a: "distinct (map fst ?m)" "distinct (map fst ?m1)"
    by (simp_all add: str_def cu_def)
  have b: "str ''__proto__'' \<notin> fst ` set ?m" "str ''__proto__'' \<notin> fst ` set ?m1"
    by (simp_all add: str_def cu_def)
  have c: "list_all (usv_entry (\<lambda>n. [])) ?m" "list_all (usv_entry (\<lambda>n. [])) ?m1"
    by (simp_all add: usv_entry_def ToString_def codec_eval)
  have d: "list_all (\<lambda>kv. is_string (snd kv)) ?m1"
    by (simp add: is_string_def)
  have e: "map_of (stringified (\<lambda>n. []) ?m)
             = [str ''name'' \<mapsto> str ''John Doe'', str ''active'' \<mapsto> str ''true'']"
    by (simp add: stringified_def ToString_def fun_upd_twist str_def cu_def)
  show ?thesis
    using a b c d query_roundtrip_as_strings [OF a(1) b(1) c(1)]
      query_roundtrip_as_strings [OF a(2) b(2) c(2)]
    unfolding e by blast
qed

text \<open>
  C7 as claimed fails for a boolean value: \<open>{active: true}\<close> is encoded to
  \<open>active=true\<close> and decoded to \<open>{active: "true"}\<close>, a string where the map had a
  boolean.
\<close>

theorem query_roundtrip_boolean_counterexample:
  "encodeQuery (\<lambda>n. []) [(str ''active'', JBoolean True)] default_encode_options
     = Inr (str ''active=true'')
   \<and> decodeQuery (str ''active=true'') default_decode_options
     = Inr [str ''active'' \<mapsto> str ''true'']
   \<and> JString (str ''true'') \<noteq> JBoolean True"
  by (simp add: encodeQuery_def encode_entry_def ToString_def decodeQuery_def decode_pair_def
      obj_assign_def codec_eval)

section \<open>Decoding keeps strings well-formed\<close>

lemma wf_cons_plain:
  "\<not> is_lead c \<Longrightarrow> \<not> is_trail c \<Longrightarrow> well_formed (c # s) = well_formed s"
  by (cases s) simp_all

lemma wf_not_trail: "well_formed (c # s) \<Longrightarrow> \<not> is_trail c"
  by (cases s) (auto simp: is_lead_def is_trail_def split: if_splits)

lemma percent_plain: "\<not> is_lead 0x25 \<and> \<not> is_trail 0x25"
  by (simp add: is_lead_def is_trail_def)

lemma hexval_plain: "hexval h = Some a \<Longrightarrow> \<not> is_lead h \<and> \<not> is_trail h"
  by (auto simp: hexval_def is_lead_def is_trail_def split: if_splits)

lemma wf_after_escape:
  assumes "ParseHexOctet h1 h2 = Some b"
  shows "well_formed (0x25 # h1 # h2 # s) = well_formed s"
proof -
  obtain a1 a2 where "hexval h1 = Some a1" "hexval h2 = Some a2"
    using ParseHexOctet_Some [OF assms] by blast
  then show ?thesis
    using hexval_plain percent_plain by (simp add: wf_cons_plain del: well_formed.simps)
qed

lemma wf_after_continuation:
  "continuation_octets j s = Some (bs, r) \<Longrightarrow> well_formed s \<Longrightarrow> well_formed r"
proof (induction j s arbitrary: bs r rule: continuation_octets.induct)
  case (2 j p h1 h2 s)
  from "2.prems"(1) obtain b bs' where p: "p = 0x25" and b: "ParseHexOctet h1 h2 = Some b"
    and c: "continuation_octets j s = Some (bs', r)"
    by (auto split: if_splits option.splits)
  have "well_formed s"
    using wf_after_escape [OF b, of s] "2.prems"(2) p by simp
  with "2.IH" [OF p b c] show ?case .
qed simp_all

lemma unat_of_nat_unit: "n < 65536 \<Longrightarrow> unat (of_nat n :: code_unit) = n"
  by (simp add: unat_of_nat)

lemma plain_of_nat:
  "n < 0xD800 \<or> (0xDFFF < n \<and> n < 65536) \<Longrightarrow>
   \<not> is_lead (of_nat n) \<and> \<not> is_trail (of_nat n)"
  by (auto simp: is_lead_def is_trail_def unat_of_nat_unit)

lemma wf_UTF16Encode:
  assumes "v \<le> 0x10FFFF" and "\<not> (0xD800 \<le> v \<and> v \<le> 0xDFFF)"
  shows "well_formed (UTF16EncodeCodePoint v @ r) = well_formed r"
proof (cases "v \<le> 0xFFFF")
  case True
  then have "\<not> is_lead (of_nat v) \<and> \<not> is_trail (of_nat v)"
    using assms(2) by (intro plain_of_nat) auto
  then show ?thesis
    using True by (simp add: UTF16EncodeCodePoint_def wf_cons_plain del: well_formed.simps)
next
  case False
  define w where "w = v - 0x10000"
  have w: "w < 0x100000" using assms(1) False by (simp add: w_def)
  then have "w div 0x400 < 0x400" by (simp add: less_mult_imp_div_less)
  then have l: "unat (of_nat (w div 0x400 + 0xD800) :: code_unit) = w div 0x400 + 0xD800"
    by (intro unat_of_nat_unit) simp
  have "w mod 0x400 < 0x400" by simp
  then have t: "unat (of_nat (w mod 0x400 + 0xDC00) :: code_unit) = w mod 0x400 + 0xDC00"
    by (intro unat_of_nat_unit) simp
  have "is_lead (of_nat (w div 0x400 + 0xD800))"
    unfolding is_lead_def l using \<open>w div 0x400 < 0x400\<close> by simp
  moreover have "is_trail (of_nat (w mod 0x400 + 0xDC00))"
    unfolding is_trail_def t using \<open>w mod 0x400 < 0x400\<close> by simp
  ultimately show ?thesis
    using False by (simp add: UTF16EncodeCodePoint_def w_def)
qed

lemma utf8_codepoint_scalar:
  assumes "utf8_codepoint (b # octets) = Some v" and "leading_ones b = Suc (length octets)"
  shows "v \<le> 0x10FFFF \<and> \<not> (0xD800 \<le> v \<and> v \<le> 0xDFFF)"
proof -
  consider b2 where "octets = [b2]" | b2 b3 where "octets = [b2, b3]"
    | b2 b3 b4 where "octets = [b2, b3, b4]"
    using assms(1) by (auto simp: utf8_codepoint_def split: list.splits)
  then show ?thesis
  proof cases
    case 1
    then have "b < 0xE0" using assms(2) by (simp add: leading_ones_def split: if_splits)
    then show ?thesis
      using assms(1) 1
      by (auto simp: utf8_codepoint_def is_continuation_def Let_def split: if_splits)
  next
    case 2
    then have "b < 0xF0" using assms(2) by (simp add: leading_ones_def split: if_splits)
    then show ?thesis
      using assms(1) 2
      by (auto simp: utf8_codepoint_def is_continuation_def Let_def split: if_splits)
  next
    case 3
    then show ?thesis
      using assms(1)
      by (auto simp: utf8_codepoint_def is_continuation_def Let_def split: if_splits)
  qed
qed

lemma prepend_eq_Inr: "prepend p x = Inr r \<Longrightarrow> \<exists>r'. x = Inr r' \<and> r = p @ r'"
  by (cases x) simp_all

lemma continuation_octets_count:
  "continuation_octets j s = Some (bs, r) \<Longrightarrow> length bs = j"
  by (induction j s arbitrary: bs r rule: continuation_octets.induct)
     (auto split: if_splits option.splits)

lemma decodeURIComponent_wf_aux:
  "decodeURIComponent s = Inr r \<Longrightarrow>
   (well_formed s \<longrightarrow> well_formed r)
   \<and> (\<forall>l. is_lead l \<longrightarrow> well_formed (l # s) \<longrightarrow> well_formed (l # r))"
proof (induction s arbitrary: r rule: decodeURIComponent.induct)
  case 1
  then show ?case by simp
next
  case (2 c s)
  show ?case
  proof (cases "c = 0x25")
    case False
    then obtain r' where r': "decodeURIComponent s = Inr r'" "r = c # r'"
      using "2.prems" prepend_eq_Inr [of "[c]" "decodeURIComponent s" r] by auto
    have ih: "(well_formed s \<longrightarrow> well_formed r')
        \<and> (\<forall>l. is_lead l \<longrightarrow> well_formed (l # s) \<longrightarrow> well_formed (l # r'))"
      by (rule "2.IH"(1) [OF False r'(1)])
    have one: "well_formed (c # r')" if w: "well_formed (c # s)"
    proof (cases "is_lead c")
      case True
      with ih w show ?thesis by blast
    next
      case nl: False
      have nt: "\<not> is_trail c" by (rule wf_not_trail [OF w])
      have "well_formed s" using w wf_cons_plain [OF nl nt] by simp
      then have "well_formed r'" using ih by blast
      then show ?thesis using wf_cons_plain [OF nl nt] by simp
    qed
    have two: "well_formed (l # c # r')" if "is_lead l" "well_formed (l # c # s)" for l
      using that ih by simp
    show ?thesis
      unfolding r'(2) using one two by blast
  next
    case pct: True
    then have npct: "\<not> c \<noteq> 0x25" by simp
    have two: "\<not> well_formed (l # c # s)" if "is_lead l" for l
      using that percent_plain pct by simp
    show ?thesis
    proof (cases s)
      case Nil
      with pct "2.prems" show ?thesis by simp
    next
      case s1: (Cons h1 s1)
      show ?thesis
      proof (cases s1)
        case Nil
        with pct s1 "2.prems" show ?thesis by simp
      next
        case s2: (Cons h2 s')
        show ?thesis
        proof (cases "ParseHexOctet h1 h2")
          case None
          with pct s1 s2 "2.prems" show ?thesis by simp
        next
          case b: (Some b)
          have w: "well_formed (c # s) = well_formed s'"
            unfolding pct s1 s2 by (rule wf_after_escape [OF b])
          show ?thesis
          proof (cases "leading_ones b = 0")
            case z: True
            then obtain r' where r': "decodeURIComponent s' = Inr r'" "r = of_nat b # r'"
              using "2.prems" pct s1 s2 b
                prepend_eq_Inr [of "[of_nat b]" "decodeURIComponent s'" r] by auto
            have ih: "well_formed s' \<longrightarrow> well_formed r'"
              using "2.IH"(2) [OF npct s1 s2 b z r'(1)] by blast
            have "b < 0x80" using z by (simp add: leading_ones_def split: if_splits)
            then have "\<not> is_lead (of_nat b) \<and> \<not> is_trail (of_nat b)"
              by (intro plain_of_nat) simp
            then have "well_formed r = well_formed r'"
              unfolding r'(2) by (simp add: wf_cons_plain del: well_formed.simps)
            then show ?thesis
              using ih w two by blast
          next
            case nz: False
            show ?thesis
            proof (cases "leading_ones b = 1 \<or> 4 < leading_ones b")
              case True
              with pct s1 s2 b nz "2.prems" show ?thesis by simp
            next
              case nb: False
              show ?thesis
              proof (cases "continuation_octets (leading_ones b - 1) s'")
                case None
                with pct s1 s2 b nz nb "2.prems" show ?thesis by simp
              next
                case cont: (Some x)
                obtain octets s'' where x: "(octets, s'') = x" by (cases x) auto
                show ?thesis
                proof (cases "utf8_codepoint (b # octets)")
                  case None
                  with pct s1 s2 b nz nb cont x [symmetric] "2.prems" show ?thesis by simp
                next
                  case v: (Some v)
                  obtain r' where r': "decodeURIComponent s'' = Inr r'"
                    "r = UTF16EncodeCodePoint v @ r'"
                    using "2.prems" pct s1 s2 b nz nb cont x [symmetric] v
                      prepend_eq_Inr [of "UTF16EncodeCodePoint v" "decodeURIComponent s''" r]
                    by auto
                  have ih: "well_formed s'' \<longrightarrow> well_formed r'"
                    using "2.IH"(3) [OF npct s1 s2 b nz nb cont x v r'(1)] by blast
                  have "length octets = leading_ones b - 1"
                    using continuation_octets_count [of _ s' octets s''] cont x by auto
                  then have len: "leading_ones b = Suc (length octets)"
                    using nz by simp
                  have "well_formed r = well_formed r'"
                    unfolding r'(2)
                    using utf8_codepoint_scalar [OF v len] wf_UTF16Encode [of v r'] by blast
                  moreover have "well_formed s' \<longrightarrow> well_formed s''"
                    using wf_after_continuation [of _ s' octets s''] cont x by auto
                  ultimately show ?thesis
                    using ih w two by blast
                qed
              qed
            qed
          qed
        qed
      qed
    qed
  qed
qed

lemma decodeURIComponent_well_formed:
  "well_formed s \<Longrightarrow> decodeURIComponent s = Inr r \<Longrightarrow> well_formed r"
  using decodeURIComponent_wf_aux by blast

section \<open>Rewriting a URL\<close>

lemma encode_param_total:
  assumes "well_formed (fst kv)" "well_formed (snd kv)"
  shows "\<exists>p. encode_param kv = Inr p"
proof -
  obtain k v where "encode (JString (fst kv)) default_encode_options = Inr k"
    "encode (JString (snd kv)) default_encode_options = Inr v"
    using encode_total assms by blast
  then show ?thesis by (simp add: encode_param_def)
qed

lemma encode_params_total:
  "list_all (\<lambda>kv. well_formed (fst kv) \<and> well_formed (snd kv)) ps \<Longrightarrow>
   \<exists>parts. map_throwing encode_param ps = Inr parts \<and> length parts = length ps"
proof (induction ps)
  case Nil
  then show ?case by simp
next
  case (Cons kv ps)
  then obtain parts where "map_throwing encode_param ps = Inr parts" "length parts = length ps"
    by auto
  moreover obtain p where "encode_param kv = Inr p"
    using encode_param_total [of kv] Cons.prems by auto
  ultimately show ?case by simp
qed

lemma encode_hash_fragment:
  assumes "well_formed (tl h)" and "h \<noteq> []"
  shows "\<exists>e. encode_hash h = Inr (str ''#'' @ e)
           \<and> encode (JString (case decodeURIComponent (tl h) of Inr d \<Rightarrow> d | Inl _ \<Rightarrow> tl h))
                 default_encode_options = Inr e"
proof (cases "decodeURIComponent (tl h)")
  case (Inl err)
  obtain e where "encode (JString (tl h)) default_encode_options = Inr e"
    using encode_total [OF assms(1)] by blast
  then show ?thesis
    using Inl assms(2) by (simp add: encode_hash_def)
next
  case (Inr d)
  have "well_formed d"
    by (rule decodeURIComponent_well_formed [OF assms(1) Inr])
  then obtain e where "encode (JString d) default_encode_options = Inr e"
    using encode_total by blast
  then show ?thesis
    using Inr assms(2) by (simp add: encode_hash_def)
qed

lemma encode_hash_total:
  assumes "well_formed (tl h)"
  shows "\<exists>e. encode_hash h = Inr e \<and> (h = [] \<longrightarrow> e = [])"
proof (cases "h = []")
  case True
  then show ?thesis by (simp add: encode_hash_def)
next
  case False
  then show ?thesis using encode_hash_fragment [OF assms False] by auto
qed

lemma encodeUrl_parsed:
  assumes "new_URL u = Some r" and "usv_components r"
  shows "\<exists>newParams h. map_throwing encode_param (searchParams r) = Inr newParams
           \<and> length newParams = length (searchParams r)
           \<and> encode_hash (hash r) = Inr h
           \<and> encodeUrl new_URL (JString u) =
               Inr (protocol r @ str ''//'' @ host r @ pathname r
                    @ (if 0 < length newParams then str ''?'' @ join (str ''&'') newParams else [])
                    @ h)"
proof -
  obtain newParams where p: "map_throwing encode_param (searchParams r) = Inr newParams"
    "length newParams = length (searchParams r)"
    using encode_params_total assms(2) unfolding usv_components_def by blast
  obtain h where h: "encode_hash (hash r) = Inr h"
    using encode_hash_total assms(2) unfolding usv_components_def by blast
  have "encodeUrl new_URL (JString u) =
          Inr (protocol r @ str ''//'' @ host r @ pathname r
               @ (if 0 < length newParams then str ''?'' @ join (str ''&'') newParams else [])
               @ h)"
    using assms(1) p(1) h by (simp add: encodeUrl_def encodeUrl_try_def Let_def)
  then show ?thesis
    using p h by blast
qed

text \<open>
  The spec's own example holds: \<open>https://example.com:8080/path/to/resource\<close> is
  returned as it is.
\<close>

lemma encodeUrl_example_unchanged:
  "encodeUrl URL_examples (JString (str ''https://example.com:8080/path/to/resource''))
     = Inr (str ''https://example.com:8080/path/to/resource'')"
  by (simp add: encodeUrl_def encodeUrl_try_def URL_examples_def encode_hash_def str_def)

text \<open>
  C8. The claim is that the \<open>scheme://authority/path\<close> part of a parseable URL is
  reproduced byte for byte, so that a URL without query and fragment is returned
  unchanged. The code rebuilds that part as \<open>protocol + "//" + host + pathname\<close> from
  the parser's components: \<open>https://example.com\<close>, which has neither query nor
  fragment, comes back as \<open>https://example.com/\<close>; the README's example
  \<open>https://example.com?query=\<close> followed by U+4F60 U+597D comes back with a \<open>/\<close>
  inserted before the \<open>?\<close>, where the README shows none; and
  \<open>https://u:p@h.io/\<close> comes back as \<open>https://h.io/\<close>, without its credentials.
\<close>

theorem encodeUrl_rebuilds_base:
  "encodeUrl URL_examples (JString (str ''https://example.com''))
     = Inr (str ''https://example.com/'')
   \<and> str ''https://example.com/'' \<noteq> str ''https://example.com''
   \<and> encodeUrl URL_examples (JString (str ''https://example.com?query='' @ [0x4F60, 0x597D]))
     = Inr (str ''https://example.com/?query=%E4%BD%A0%E5%A5%BD'')
   \<and> encodeUrl URL_examples (JString (str ''https://u:p@h.io/''))
     = Inr (str ''https://h.io/'')"
  by (simp add: encodeUrl_def encodeUrl_try_def URL_examples_def encode_hash_def
      encode_param_def codec_eval)

text \<open>
  C9. When the parser accepts \<open>u\<close> and the hash of the result is not empty, the
  result of \<open>encodeUrl\<close> ends with \<open>#\<close> and the encoding of the percent-decoded raw
  fragment if the raw fragment can be decoded, of the raw fragment itself if it cannot.
  For \<open>https://example.com/page#section name\<close> the result is
  \<open>https://example.com/page#section%20name\<close>.
\<close>

theorem encodeUrl_fragment:
  assumes "new_URL u = Some r" and "usv_components r" and "hash r \<noteq> []"
  shows "\<exists>query e. encodeUrl new_URL (JString u)
                     = Inr (protocol r @ str ''//'' @ host r @ pathname r @ query @ str ''#'' @ e)
           \<and> encode (JString (case decodeURIComponent (tl (hash r)) of
                                 Inr decodedHash \<Rightarrow> decodedHash
                               | Inl _ \<Rightarrow> tl (hash r)))
                 default_encode_options = Inr e"
proof -
  obtain newParams h where *: "encode_hash (hash r) = Inr h"
    "encodeUrl new_URL (JString u) =
       Inr (protocol r @ str ''//'' @ host r @ pathname r
            @ (if 0 < length newParams then str ''?'' @ join (str ''&'') newParams else [])
            @ h)"
    using encodeUrl_parsed [of new_URL u r] assms(1,2) by blast
  have "well_formed (tl (hash r))"
    using assms(2) by (simp add: usv_components_def)
  then obtain e where e: "encode_hash (hash r) = Inr (str ''#'' @ e)"
    "encode (JString (case decodeURIComponent (tl (hash r)) of
                        Inr d \<Rightarrow> d | Inl _ \<Rightarrow> tl (hash r)))
       default_encode_options = Inr e"
    using encode_hash_fragment [OF _ assms(3)] by blast
  have "h = str ''#'' @ e" using *(1) e(1) by simp
  then show ?thesis
    using *(2) e(2) by blast
qed

theorem encodeUrl_fragment_witness:
  "URL_examples (str ''https://example.com/page#section name'')
     = Some \<lparr>protocol = str ''https:'', host = str ''example.com'',
             pathname = str ''/page'', searchParams = [], hash = str ''#section%20name''\<rparr>
   \<and> usv_components \<lparr>protocol = str ''https:'', host = str ''example.com'',
             pathname = str ''/page'', searchParams = [], hash = str ''#section%20name''\<rparr>
   \<and> str ''#section%20name'' \<noteq> []
   \<and> decodeURIComponent (str ''section%20name'') = Inr (str ''section name'')
   \<and> encode (JString (str ''section name'')) default_encode_options = Inr (str ''section%20name'')
   \<and> (\<exists>query. encodeUrl URL_examples (JString (str ''https://example.com/page#section name''))
         = Inr (str ''https://example.com/page'' @ query @ str ''#section%20name''))
   \<and> encodeUrl URL_examples (JString (str ''https://example.com/page#section name''))
         = Inr (str ''https://example.com/page#section%20name'')"
proof -
  let ?r = "\<lparr>protocol = str ''https:'', host = str ''example.com'',
             pathname = str ''/page'', searchParams = [], hash = str ''#section%20name''\<rparr>"
  have a: "URL_examples (str ''https://example.com/page#section name'') = Some ?r"
    by (simp add: URL_examples_def str_def cu_def)
  have b: "usv_components ?r"
    by (simp add: usv_components_def str_def cu_def is_lead_def is_trail_def)
  have c: "hash ?r \<noteq> []"
    by (simp add: str_def)
  have t: "tl (hash ?r) = str ''section%20name''"
    by (simp add: str_def)
  have d: "decodeURIComponent (str ''section%20name'') = Inr (str ''section name'')"
    by (simp add: codec_eval)
  have e: "encode (JString (str ''section name'')) default_encode_options
             = Inr (str ''section%20name'')"
    by (simp add: codec_eval)
  have f: "protocol ?r @ str ''//'' @ host ?r @ pathname ?r = str ''https://example.com/page''"
    by (simp add: str_def)
  have g: "str ''#'' @ str ''section%20name'' = str ''#section%20name''"
    by (simp add: str_def)
  from a b c encodeUrl_fragment [of URL_examples
      "str ''https://example.com/page#section name''" ?r]
  obtain query e' where
    q: "encodeUrl URL_examples (JString (str ''https://example.com/page#section name''))
       = Inr (protocol ?r @ str ''//'' @ host ?r @ pathname ?r @ query @ str ''#'' @ e')"
    and e': "encode (JString (case decodeURIComponent (tl (hash ?r)) of
                        Inr decodedHash \<Rightarrow> decodedHash | Inl _ \<Rightarrow> tl (hash ?r)))
       default_encode_options = Inr e'"
    by blast
  have "e' = str ''section%20name''"
    using e' unfolding t d by (simp add: e)
  then have "protocol ?r @ str ''//'' @ host ?r @ pathname ?r @ query @ str ''#'' @ e'
               = str ''https://example.com/page'' @ query @ str ''#section%20name''"
    by (simp add: str_def)
  then have "encodeUrl URL_examples (JString (str ''https://example.com/page#section name''))
       = Inr (str ''https://example.com/page'' @ query @ str ''#section%20name'')"
    using q by simp
  moreover have "encodeUrl URL_examples (JString (str ''https://example.com/page#section name''))
         = Inr (str ''https://example.com/page#section%20name'')"
    by (simp add: encodeUrl_def encodeUrl_try_def URL_examples_def encode_hash_def codec_eval)
  ultimately show ?thesis
    using a b d e by (auto simp: str_def)
qed

end
